theory Spec2Isabelle
  imports Main "HOL-Library.Signed_Division"
begin

section \<open>Catalan numbers modulo a prime: the program of Week\_1/assign\_1\_code.cpp\<close>

text \<open>
  The source is one translation unit: the constant \<open>MODULO\<close>, the function
  \<open>computeCatalan\<close> and the driver \<open>main\<close>.

  \<^verbatim>\<open>
  const int MODULO = 1000000007;

  vector<long long> computeCatalan(int limit) {
      vector<long long> catalan(limit + 1, 0);
      catalan[0] = 1;
      for (int idx = 1; idx <= limit; ++idx) {
          for (int k = 0; k < idx; ++k) {
              catalan[idx] = (catalan[idx] + (catalan[k] * catalan[idx - k - 1]) % MODULO) % MODULO;
          }
      }
      return catalan;
  }
  \<close>

  The embedding works on mathematical integers and writes every place where C++ leaves
  the result undefined, or throws, as a branch that returns an error:
  \<^item> \<open>int\<close> is the 32-bit and \<open>long long\<close> the 64-bit two's complement type (LP64);
    an arithmetic result outside the type is undefined behaviour;
  \<^item> \<open>operator[]\<close> of \<open>std::vector\<close> outside \<open>0..size-1\<close> is undefined behaviour;
  \<^item> the constructor \<open>vector(n, v)\<close> converts \<open>n\<close> to the unsigned \<open>size_type\<close>
    and throws \<open>std::length_error\<close> when that exceeds \<open>max_size()\<close>.
  Exhaustion of memory (\<open>std::bad_alloc\<close> for a table that is within \<open>max_size()\<close>)
  is not modelled.

  The function is embedded twice: first on the table as a value (\<open>computeCatalan\<close>),
  then on an explicit program state, standard output and the free store
  (\<open>computeCatalan_st\<close>), for what a call does to its surroundings.
\<close>

subsection \<open>Errors and the result type\<close>

datatype error =
    IntOverflow        \<comment> \<open>undefined behaviour: an \<open>int\<close> result outside 32 bits\<close>
  | LongLongOverflow   \<comment> \<open>undefined behaviour: a \<open>long long\<close> result outside 64 bits\<close>
  | OutOfBounds        \<comment> \<open>undefined behaviour: \<open>operator[]\<close> outside the vector\<close>
  | LengthError        \<comment> \<open>the exception \<open>std::length_error\<close> of the vector constructor\<close>

fun undefined_behaviour :: "error \<Rightarrow> bool" where
  "undefined_behaviour IntOverflow = True"
| "undefined_behaviour LongLongOverflow = True"
| "undefined_behaviour OutOfBounds = True"
| "undefined_behaviour LengthError = False"

text \<open>Sequencing: the first error ends the computation.\<close>

fun bind :: "error + 'a \<Rightarrow> ('a \<Rightarrow> error + 'b) \<Rightarrow> error + 'b" where
  "bind (Inl e) f = Inl e"
| "bind (Inr v) f = f v"

lemma bind_cong [fundef_cong]:
  "m = m' \<Longrightarrow> (\<And>v. m' = Inr v \<Longrightarrow> f v = f' v) \<Longrightarrow> bind m f = bind m' f'"
  by (cases m') auto

subsection \<open>Machine arithmetic\<close>

definition MODULO :: int where
  "MODULO = 1000000007"

definition INT_MIN :: int where
  "INT_MIN = - 2147483648"

definition INT_MAX :: int where
  "INT_MAX = 2147483647"

definition LLONG_MIN :: int where
  "LLONG_MIN = - 9223372036854775808"

definition LLONG_MAX :: int where
  "LLONG_MAX = 9223372036854775807"

definition int_add :: "int \<Rightarrow> int \<Rightarrow> error + int" where
  "int_add a b = (if INT_MIN \<le> a + b \<and> a + b \<le> INT_MAX then Inr (a + b) else Inl IntOverflow)"

definition int_sub :: "int \<Rightarrow> int \<Rightarrow> error + int" where
  "int_sub a b = (if INT_MIN \<le> a - b \<and> a - b \<le> INT_MAX then Inr (a - b) else Inl IntOverflow)"

definition ll_add :: "int \<Rightarrow> int \<Rightarrow> error + int" where
  "ll_add a b =
     (if LLONG_MIN \<le> a + b \<and> a + b \<le> LLONG_MAX then Inr (a + b) else Inl LongLongOverflow)"

definition ll_mul :: "int \<Rightarrow> int \<Rightarrow> error + int" where
  "ll_mul a b =
     (if LLONG_MIN \<le> a * b \<and> a * b \<le> LLONG_MAX then Inr (a * b) else Inl LongLongOverflow)"

text \<open>
  \<open>x % MODULO\<close> on \<open>long long\<close>: the remainder of the division that truncates towards
  zero (\<open>smod\<close>), with the sign of \<open>x\<close>. The divisor is the positive constant, so the
  operation has no undefined case.
\<close>

definition ll_mod_MODULO :: "int \<Rightarrow> int" where
  "ll_mod_MODULO x = x smod MODULO"

subsection \<open>The vector\<close>

text \<open>
  \<open>size_type\<close> is the unsigned 64-bit type; a \<open>vector<long long>\<close> holds at most
  \<open>PTRDIFF_MAX / sizeof(long long)\<close> elements.
\<close>

definition to_size_t :: "int \<Rightarrow> int" where
  "to_size_t n = n mod 2 ^ 64"

definition vector_max_size :: int where
  "vector_max_size = (2 ^ 63 - 1) div 8"

definition vector_create :: "int \<Rightarrow> int \<Rightarrow> error + int list" where
  "vector_create n v =
     (if to_size_t n > vector_max_size then Inl LengthError
      else Inr (replicate (nat (to_size_t n)) v))"

definition vector_at :: "int list \<Rightarrow> int \<Rightarrow> error + int" where
  "vector_at xs i =
     (if to_size_t i < int (length xs) then Inr (xs ! nat (to_size_t i)) else Inl OutOfBounds)"

definition vector_set :: "int list \<Rightarrow> int \<Rightarrow> int \<Rightarrow> error + int list" where
  "vector_set xs i v =
     (if to_size_t i < int (length xs) then Inr (xs[nat (to_size_t i) := v]) else Inl OutOfBounds)"

subsection \<open>computeCatalan\<close>

text \<open>The assignment in the inner loop: one pass of its body.\<close>

definition loop_body :: "int list \<Rightarrow> int \<Rightarrow> int \<Rightarrow> error + int list" where
  "loop_body catalan idx k =
     bind (vector_at catalan idx) (\<lambda>c_idx.
     bind (vector_at catalan k) (\<lambda>c_k.
     bind (int_sub idx k) (\<lambda>d.
     bind (int_sub d 1) (\<lambda>j.
     bind (vector_at catalan j) (\<lambda>c_j.
     bind (ll_mul c_k c_j) (\<lambda>p.
     bind (ll_add c_idx (ll_mod_MODULO p)) (\<lambda>s.
     vector_set catalan idx (ll_mod_MODULO s))))))))"

text \<open>\<^verbatim>\<open>for (int k = ...; k < idx; ++k)\<close>, entered with the current \<open>k\<close>.\<close>

function inner_loop :: "int list \<Rightarrow> int \<Rightarrow> int \<Rightarrow> error + int list" where
  "inner_loop catalan idx k =
     (if k < idx then
        bind (loop_body catalan idx k) (\<lambda>catalan'.
        bind (int_add k 1) (\<lambda>k'.
        inner_loop catalan' idx k'))
      else Inr catalan)"
  by pat_completeness auto
termination
  by (relation "measure (\<lambda>(catalan, idx, k). nat (idx - k))")
     (auto simp: int_add_def split: if_splits)

declare inner_loop.simps [simp del]

text \<open>\<^verbatim>\<open>for (int idx = ...; idx <= limit; ++idx)\<close>, entered with the current \<open>idx\<close>.\<close>

function outer_loop :: "int list \<Rightarrow> int \<Rightarrow> int \<Rightarrow> error + int list" where
  "outer_loop catalan limit idx =
     (if idx \<le> limit then
        bind (inner_loop catalan idx 0) (\<lambda>catalan'.
        bind (int_add idx 1) (\<lambda>idx'.
        outer_loop catalan' limit idx'))
      else Inr catalan)"
  by pat_completeness auto
termination
  by (relation "measure (\<lambda>(catalan, limit, idx). nat (limit + 1 - idx))")
     (auto simp: int_add_def split: if_splits)

declare outer_loop.simps [simp del]

definition computeCatalan :: "int \<Rightarrow> error + int list" where
  "computeCatalan limit =
     bind (int_add limit 1) (\<lambda>n.
     bind (vector_create n 0) (\<lambda>catalan.
     bind (vector_set catalan 0 1) (\<lambda>catalan.
     outer_loop catalan limit 1)))"

subsection \<open>The driver\<close>








subsection \<open>The states a run of computeCatalan passes\<close>

text \<open>
  The same two loops, one test at a time. A configuration is the table with the loop
  counters in scope, at the test of the outer loop (\<open>AtOuter catalan idx\<close>) or at the
  test of the inner loop (\<open>AtInner catalan idx k\<close>). \<open>occurs limit cfg\<close>: the call
  \<open>computeCatalan(limit)\<close> reaches \<open>cfg\<close>. The rules follow the source line by line
  and use the operations of the embedding above. Lemma \<open>occurs_on_path\<close> below shows that
  what remains to be computed from any such configuration is the result of the call, and
  lemma \<open>computeCatalan_occurs\<close> that the table a call returns is the one of its last
  configuration.
\<close>

datatype config = AtOuter "int list" int | AtInner "int list" int int

fun table_of :: "config \<Rightarrow> int list" where
  "table_of (AtOuter catalan idx) = catalan"
| "table_of (AtInner catalan idx k) = catalan"

inductive occurs :: "int \<Rightarrow> config \<Rightarrow> bool" for limit :: int where
  start: "int_add limit 1 = Inr n \<Longrightarrow> vector_create n 0 = Inr c0 \<Longrightarrow> vector_set c0 0 1 = Inr c
     \<Longrightarrow> occurs limit (AtOuter c 1)"
| enter: "occurs limit (AtOuter c idx) \<Longrightarrow> idx \<le> limit \<Longrightarrow> occurs limit (AtInner c idx 0)"
| iterate: "occurs limit (AtInner c idx k) \<Longrightarrow> k < idx \<Longrightarrow> loop_body c idx k = Inr c'
     \<Longrightarrow> int_add k 1 = Inr k' \<Longrightarrow> occurs limit (AtInner c' idx k')"
| leave: "occurs limit (AtInner c idx k) \<Longrightarrow> \<not> k < idx \<Longrightarrow> int_add idx 1 = Inr idx'
     \<Longrightarrow> occurs limit (AtOuter c idx')"

code_pred occurs .

subsection \<open>The program state: standard output and the heap\<close>

text \<open>
  The same function once more, with everything a call could act on made explicit. The
  state of the program is the stream \<open>std::cout\<close> (the characters written so far) and
  the free store, on which a \<open>std::vector\<close> keeps its elements: a list of blocks, a
  vector being the index of its block. The translation unit has no other object that
  outlives a call: \<open>MODULO\<close> is \<open>const\<close>, and \<open>limit\<close>, \<open>idx\<close> and \<open>k\<close> are
  automatic. A statement is a function from the state to an error or to a value and the
  next state; an expression of arithmetic acts on no state.

  \<open>vector_new\<close> is the constructor \<open>vector(n, v)\<close>: it takes a fresh block.
  \<open>vector_read\<close> and \<open>vector_write\<close> are \<open>operator[]\<close> as a value and as the target
  of an assignment. \<open>computeCatalan_st\<close> returns the vector it has built (its block
  passes to the caller).
\<close>

record world =
  cout :: string
  heap :: "int list list"

type_synonym 'a prog = "world \<Rightarrow> error + 'a \<times> world"

definition bind_st :: "'a prog \<Rightarrow> ('a \<Rightarrow> 'b prog) \<Rightarrow> 'b prog" where
  "bind_st m f w = (case m w of Inl e \<Rightarrow> Inl e | Inr (v, w') \<Rightarrow> f v w')"

lemma bind_st_cong [fundef_cong]:
  "m w = m' w' \<Longrightarrow> (\<And>v w1. m' w' = Inr (v, w1) \<Longrightarrow> f v w1 = f' v w1)
     \<Longrightarrow> bind_st m f w = bind_st m' f' w'"
  by (auto simp: bind_st_def split: sum.splits)

definition pure_expr :: "error + 'a \<Rightarrow> 'a prog" where
  "pure_expr r w = (case r of Inl e \<Rightarrow> Inl e | Inr v \<Rightarrow> Inr (v, w))"

definition vector_new :: "int \<Rightarrow> int \<Rightarrow> nat prog" where
  "vector_new n v w =
     (if to_size_t n > vector_max_size then Inl LengthError
      else Inr (length (heap w), w\<lparr>heap := heap w @ [replicate (nat (to_size_t n)) v]\<rparr>))"

definition vector_read :: "nat \<Rightarrow> int \<Rightarrow> int prog" where
  "vector_read a i w =
     (if a < length (heap w) \<and> to_size_t i < int (length (heap w ! a))
      then Inr (heap w ! a ! nat (to_size_t i), w) else Inl OutOfBounds)"

definition vector_write :: "nat \<Rightarrow> int \<Rightarrow> int \<Rightarrow> unit prog" where
  "vector_write a i v w =
     (if a < length (heap w) \<and> to_size_t i < int (length (heap w ! a))
      then Inr ((), w\<lparr>heap := (heap w)[a := (heap w ! a)[nat (to_size_t i) := v]]\<rparr>)
      else Inl OutOfBounds)"

text \<open>The assignment in the inner loop, on the block of \<open>catalan\<close>.\<close>

definition loop_body_st :: "nat \<Rightarrow> int \<Rightarrow> int \<Rightarrow> unit prog" where
  "loop_body_st catalan idx k =
     bind_st (vector_read catalan idx) (\<lambda>c_idx.
     bind_st (vector_read catalan k) (\<lambda>c_k.
     bind_st (pure_expr (int_sub idx k)) (\<lambda>d.
     bind_st (pure_expr (int_sub d 1)) (\<lambda>j.
     bind_st (vector_read catalan j) (\<lambda>c_j.
     bind_st (pure_expr (ll_mul c_k c_j)) (\<lambda>p.
     bind_st (pure_expr (ll_add c_idx (ll_mod_MODULO p))) (\<lambda>s.
     vector_write catalan idx (ll_mod_MODULO s))))))))"

text \<open>\<^verbatim>\<open>for (int k = ...; k < idx; ++k)\<close> and \<^verbatim>\<open>for (int idx = ...; idx <= limit; ++idx)\<close>.\<close>

function inner_loop_st :: "nat \<Rightarrow> int \<Rightarrow> int \<Rightarrow> unit prog" where
  "inner_loop_st catalan idx k w =
     (if k < idx then
        bind_st (loop_body_st catalan idx k) (\<lambda>_.
        bind_st (pure_expr (int_add k 1)) (\<lambda>k'.
        inner_loop_st catalan idx k')) w
      else Inr ((), w))"
  by pat_completeness auto
termination
  by (relation "measure (\<lambda>(catalan, idx, k, w). nat (idx - k))")
     (auto simp: pure_expr_def int_add_def split: if_splits)

declare inner_loop_st.simps [simp del]

function outer_loop_st :: "nat \<Rightarrow> int \<Rightarrow> int \<Rightarrow> unit prog" where
  "outer_loop_st catalan limit idx w =
     (if idx \<le> limit then
        bind_st (inner_loop_st catalan idx 0) (\<lambda>_.
        bind_st (pure_expr (int_add idx 1)) (\<lambda>idx'.
        outer_loop_st catalan limit idx')) w
      else Inr ((), w))"
  by pat_completeness auto
termination
  by (relation "measure (\<lambda>(catalan, limit, idx, w). nat (limit + 1 - idx))")
     (auto simp: pure_expr_def int_add_def split: if_splits)

declare outer_loop_st.simps [simp del]

text \<open>The body of \<open>computeCatalan\<close>, line by line, ending in \<^verbatim>\<open>return catalan;\<close>.\<close>

definition computeCatalan_st :: "int \<Rightarrow> nat prog" where
  "computeCatalan_st limit =
     bind_st (pure_expr (int_add limit 1)) (\<lambda>n.
     bind_st (vector_new n 0) (\<lambda>catalan.
     bind_st (vector_write catalan 0 1) (\<lambda>_.
     bind_st (outer_loop_st catalan limit 1) (\<lambda>_.
     (\<lambda>w. Inr (catalan, w))))))"

text \<open>
  What a call that ends in \<open>r\<close> leaves of the state \<open>w\<close> when it works on the block
  \<open>a\<close> only (used to compare the two embeddings).
\<close>

definition write_back :: "world \<Rightarrow> nat \<Rightarrow> error + int list \<Rightarrow> error + unit \<times> world" where
  "write_back w a r =
     (case r of Inl e \<Rightarrow> Inl e | Inr c \<Rightarrow> Inr ((), w\<lparr>heap := (heap w)[a := c]\<rparr>))"

subsection \<open>The notions of the specification\<close>

text \<open>A modular integer: a value in \<open>[0, MODULO)\<close>; a table all of whose entries are.\<close>

definition in_range :: "int \<Rightarrow> bool" where
  "in_range x \<longleftrightarrow> 0 \<le> x \<and> x < MODULO"

definition table_ok :: "int list \<Rightarrow> bool" where
  "table_ok t \<longleftrightarrow> list_all in_range t"

text \<open>
  The recurrence as the specification words it (section 4.1), as a function of the
  index alone. It is not taken from the code: it is the sequence the code is compared
  with.
\<close>

fun spec_catalan :: "nat \<Rightarrow> int" where
  "spec_catalan 0 = 1"
| "spec_catalan (Suc n) =
     (\<Sum>k = 0..<Suc n. (spec_catalan k * spec_catalan (n - k)) mod MODULO) mod MODULO"

declare spec_catalan.simps [simp del]

text \<open>
  The sum the inner loop still has to add when it stands at \<open>k\<close>, and the table when the
  outer loop stands at \<open>i\<close>: the entries below \<open>i\<close> are final, the others still zero.
\<close>

definition convolution :: "int list \<Rightarrow> nat \<Rightarrow> nat \<Rightarrow> int" where
  "convolution t i k = (\<Sum>j = k..<i. (t ! j * t ! (i - 1 - j)) mod MODULO)"

definition partial_table :: "nat \<Rightarrow> nat \<Rightarrow> int list" where
  "partial_table n i = map spec_catalan [0..<i] @ replicate (n + 1 - i) 0"

section \<open>Auxiliary facts\<close>

lemma ll_mod_MODULO_nonneg: "0 \<le> x \<Longrightarrow> ll_mod_MODULO x = x mod MODULO"
  by (simp add: ll_mod_MODULO_def signed_modulo_int_def MODULO_def sgn_if)

lemma in_range_mod: "in_range (x mod MODULO)"
  by (simp add: in_range_def MODULO_def)

lemma product_bound:
  assumes "in_range a" "in_range b"
  shows "0 \<le> a * b" "a * b \<le> LLONG_MAX"
proof -
  from assms show "0 \<le> a * b" by (simp add: in_range_def)
  have "a * b \<le> MODULO * MODULO"
    using assms by (intro mult_mono) (simp_all add: in_range_def MODULO_def)
  also have "\<dots> \<le> LLONG_MAX" by (simp add: MODULO_def LLONG_MAX_def)
  finally show "a * b \<le> LLONG_MAX" .
qed

lemma ll_mul_in_range: "in_range a \<Longrightarrow> in_range b \<Longrightarrow> ll_mul a b = Inr (a * b)"
  using product_bound [of a b] by (simp add: ll_mul_def LLONG_MIN_def)

lemma ll_add_in_range: "in_range a \<Longrightarrow> in_range b \<Longrightarrow> ll_add a b = Inr (a + b)"
  by (simp add: ll_add_def in_range_def MODULO_def LLONG_MIN_def LLONG_MAX_def)

lemma to_size_t_id: "0 \<le> i \<Longrightarrow> i \<le> INT_MAX \<Longrightarrow> to_size_t i = i"
  by (simp add: to_size_t_def INT_MAX_def)

lemma vector_at_nat:
  "i < length t \<Longrightarrow> int i \<le> INT_MAX \<Longrightarrow> vector_at t (int i) = Inr (t ! i)"
  by (simp add: vector_at_def to_size_t_id)

lemma vector_set_nat:
  "i < length t \<Longrightarrow> int i \<le> INT_MAX \<Longrightarrow> vector_set t (int i) v = Inr (t[i := v])"
  by (simp add: vector_set_def to_size_t_id)

lemma table_ok_nth: "table_ok t \<Longrightarrow> i < length t \<Longrightarrow> in_range (t ! i)"
  by (simp add: table_ok_def list_all_length)

lemma table_ok_update: "table_ok t \<Longrightarrow> in_range v \<Longrightarrow> table_ok (t[i := v])"
  unfolding table_ok_def list_all_iff by (metis insertE set_update_subset_insert subsetD)

lemma loop_body_nat:
  assumes ok: "table_ok t" and k: "k < i" and i: "i < length t" and m: "int i \<le> INT_MAX"
  shows "loop_body t (int i) (int k) =
           Inr (t[i := (t ! i + (t ! k * t ! (i - 1 - k)) mod MODULO) mod MODULO])"
proof -
  define j where "j = i - 1 - k"
  have j: "j < length t" "int j \<le> INT_MAX" using k i m by (auto simp: j_def)
  have kk: "k < length t" "int k \<le> INT_MAX" using k i m by auto
  have sub1: "int_sub (int i) (int k) = Inr (int i - int k)"
    using k m by (simp add: int_sub_def INT_MIN_def)
  have sub2: "int_sub (int i - int k) 1 = Inr (int j)"
    using k m by (auto simp: int_sub_def INT_MIN_def j_def)
  have r: "in_range (t ! i)" "in_range (t ! k)" "in_range (t ! j)"
    using ok i kk j by (simp_all add: table_ok_nth)
  have p: "0 \<le> t ! k * t ! j" using r product_bound by blast
  have s: "0 \<le> t ! i + (t ! k * t ! j) mod MODULO"
    using r(1) in_range_mod [of "t ! k * t ! j"] by (simp add: in_range_def)
  have "loop_body t (int i) (int k) =
          Inr (t[i := (t ! i + (t ! k * t ! j) mod MODULO) mod MODULO])"
    unfolding loop_body_def
    by (simp add: vector_at_nat vector_set_nat i m kk j sub1 sub2 ll_mul_in_range r
        ll_mod_MODULO_nonneg p s ll_add_in_range in_range_mod)
  then show ?thesis by (simp add: j_def)
qed


lemma convolution_Suc:
  "k < i \<Longrightarrow> convolution t i k = (t ! k * t ! (i - 1 - k)) mod MODULO + convolution t i (Suc k)"
  by (simp add: convolution_def sum.atLeast_Suc_lessThan)

lemma convolution_update:
  "convolution (t[i := v]) i k = convolution t i k"
  unfolding convolution_def by (rule sum.cong) auto

lemma inner_loop_nat:
  assumes "table_ok t" "k \<le> i" "i < length t" "int i \<le> INT_MAX"
  shows "inner_loop t (int i) (int k) = Inr (t[i := (t ! i + convolution t i k) mod MODULO])"
  using assms
proof (induction "i - k" arbitrary: t k)
  case 0
  then have "k = i" by simp
  moreover have "t ! i mod MODULO = t ! i"
    using table_ok_nth [OF "0.prems"(1) "0.prems"(3)] by (simp add: in_range_def)
  ultimately show ?case
    by (subst inner_loop.simps) (simp add: convolution_def)
next
  case (Suc d)
  then have k: "k < i" by simp
  define p where "p = (t ! k * t ! (i - 1 - k)) mod MODULO"
  define t1 where "t1 = t[i := (t ! i + p) mod MODULO]"
  have body: "loop_body t (int i) (int k) = Inr t1"
    using loop_body_nat [OF Suc.prems(1) k Suc.prems(3,4)] by (simp add: t1_def p_def)
  have inc: "int_add (int k) 1 = Inr (int (Suc k))"
    using k Suc.prems(4) by (simp add: int_add_def INT_MIN_def)
  have ok1: "table_ok t1"
    unfolding t1_def by (rule table_ok_update [OF Suc.prems(1) in_range_mod])
  have "inner_loop t1 (int i) (int (Suc k)) =
          Inr (t1[i := (t1 ! i + convolution t1 i (Suc k)) mod MODULO])"
    using Suc.hyps(2) k Suc.prems(3,4) ok1 by (intro Suc.hyps(1)) (simp_all add: t1_def)
  also have "t1 ! i = (t ! i + p) mod MODULO"
    using Suc.prems(3) by (simp add: t1_def)
  also have "convolution t1 i (Suc k) = convolution t i (Suc k)"
    by (simp add: t1_def convolution_update)
  also have "((t ! i + p) mod MODULO + convolution t i (Suc k)) mod MODULO =
               (t ! i + convolution t i k) mod MODULO"
    by (simp add: convolution_Suc [OF k] p_def mod_add_left_eq add.assoc)
  also have "t1[i := (t ! i + convolution t i k) mod MODULO] =
               t[i := (t ! i + convolution t i k) mod MODULO]"
    by (simp add: t1_def)
  finally have rec: "inner_loop t1 (int i) (int (Suc k)) =
                       Inr (t[i := (t ! i + convolution t i k) mod MODULO])" .
  have "inner_loop t (int i) (int k) =
          bind (loop_body t (int i) (int k)) (\<lambda>c.
          bind (int_add (int k) 1) (\<lambda>k'. inner_loop c (int i) k'))"
    using k by (subst inner_loop.simps) simp
  then show ?case
    by (simp only: body inc rec bind.simps)
qed


lemma in_range_spec_catalan: "in_range (spec_catalan n)"
  by (cases n) (simp_all add: spec_catalan.simps in_range_def MODULO_def)

lemma length_partial_table: "i \<le> n + 1 \<Longrightarrow> length (partial_table n i) = n + 1"
  by (simp add: partial_table_def)

lemma partial_table_nth_lt: "j < i \<Longrightarrow> partial_table n i ! j = spec_catalan j"
  by (simp add: partial_table_def nth_append)

lemma partial_table_nth_ge: "i \<le> j \<Longrightarrow> j \<le> n \<Longrightarrow> partial_table n i ! j = 0"
  by (simp add: partial_table_def nth_append)

lemma table_ok_partial_table: "table_ok (partial_table n i)"
proof -
  have "in_range 0" by (simp add: in_range_def MODULO_def)
  then show ?thesis
    by (auto simp: table_ok_def partial_table_def list_all_iff in_range_spec_catalan)
qed

lemma convolution_partial_table:
  "convolution (partial_table n (Suc i)) (Suc i) 0 mod MODULO = spec_catalan (Suc i)"
proof -
  have "convolution (partial_table n (Suc i)) (Suc i) 0 =
          (\<Sum>k = 0..<Suc i. (spec_catalan k * spec_catalan (i - k)) mod MODULO)"
    unfolding convolution_def
    by (rule sum.cong) (simp_all add: partial_table_nth_lt less_Suc_eq_le)
  then show ?thesis by (simp add: spec_catalan.simps)
qed

lemma partial_table_step:
  assumes "i \<le> n"
  shows "(partial_table n i)[i := spec_catalan i] = partial_table n (Suc i)"
proof (rule nth_equalityI)
  show "length ((partial_table n i)[i := spec_catalan i]) = length (partial_table n (Suc i))"
    using assms by (simp add: length_partial_table)
next
  fix j assume "j < length ((partial_table n i)[i := spec_catalan i])"
  then have j: "j \<le> n" using assms by (simp add: length_partial_table)
  consider "j < i" | "j = i" | "i < j" by linarith
  then show "(partial_table n i)[i := spec_catalan i] ! j = partial_table n (Suc i) ! j"
  proof cases
    case 1
    then show ?thesis by (simp add: partial_table_nth_lt)
  next
    case 2
    then show ?thesis using assms by (simp add: partial_table_nth_lt length_partial_table)
  next
    case 3
    then show ?thesis using j by (simp add: partial_table_nth_ge)
  qed
qed


lemma outer_loop_nat:
  assumes "1 \<le> i" "i \<le> n + 1" "int n < INT_MAX"
  shows "outer_loop (partial_table n i) (int n) (int i) = Inr (partial_table n (n + 1))"
  using assms
proof (induction "n + 1 - i" arbitrary: i)
  case 0
  then have "i = n + 1" by simp
  then show ?case by (subst outer_loop.simps) simp
next
  case (Suc d)
  then have i: "i \<le> n" by simp
  obtain i' where i': "i = Suc i'" using Suc.prems(1) by (cases i) auto
  have len: "i < length (partial_table n i)"
    using i by (simp add: length_partial_table)
  have max: "int i \<le> INT_MAX" using i Suc.prems(3) by simp
  have "inner_loop (partial_table n i) (int i) (int 0) =
          Inr ((partial_table n i)[i := (partial_table n i ! i +
                 convolution (partial_table n i) i 0) mod MODULO])"
    by (rule inner_loop_nat [OF table_ok_partial_table _ len max]) simp
  also have "partial_table n i ! i = 0"
    using i by (simp add: partial_table_nth_ge)
  also have "(0 + convolution (partial_table n i) i 0) mod MODULO = spec_catalan i"
    by (simp add: i' convolution_partial_table)
  also have "(partial_table n i)[i := spec_catalan i] = partial_table n (Suc i)"
    by (rule partial_table_step [OF i])
  finally have inner: "inner_loop (partial_table n i) (int i) 0 = Inr (partial_table n (Suc i))"
    by simp
  have inc: "int_add (int i) 1 = Inr (int (Suc i))"
    using max i Suc.prems(3) by (simp add: int_add_def INT_MIN_def)
  have rec: "outer_loop (partial_table n (Suc i)) (int n) (int (Suc i)) =
               Inr (partial_table n (n + 1))"
    using Suc.hyps(2) i Suc.prems(3) by (intro Suc.hyps(1)) simp_all
  have "outer_loop (partial_table n i) (int n) (int i) =
          bind (inner_loop (partial_table n i) (int i) 0) (\<lambda>c.
          bind (int_add (int i) 1) (\<lambda>i'. outer_loop c (int n) i'))"
    using i by (subst outer_loop.simps) simp
  then show ?case
    by (simp only: inner inc rec bind.simps)
qed

lemma computeCatalan_table:
  assumes "0 \<le> limit" "limit < INT_MAX"
  shows "computeCatalan limit = Inr (map spec_catalan [0..<nat limit + 1])"
proof -
  define n where "n = nat limit"
  have limit: "limit = int n" using assms(1) by (simp add: n_def)
  have n: "int n < INT_MAX" using assms(2) limit by simp
  have add: "int_add (int n) 1 = Inr (int (n + 1))"
    using n by (simp add: int_add_def INT_MIN_def)
  have size: "to_size_t (int (n + 1)) = int (n + 1)"
    using n by (intro to_size_t_id) simp_all
  have create: "vector_create (int (n + 1)) 0 = Inr (replicate (n + 1) 0)"
  proof -
    have "\<not> int (n + 1) > vector_max_size"
      using n by (simp add: vector_max_size_def INT_MAX_def)
    then show ?thesis
      unfolding vector_create_def size by (simp only: if_False nat_int)
  qed
  have store: "vector_set (replicate (n + 1) 0) 0 1 = Inr (partial_table n 1)"
    by (simp add: vector_set_def to_size_t_def partial_table_def spec_catalan.simps)
  have "outer_loop (partial_table n 1) (int n) (int 1) = Inr (partial_table n (n + 1))"
    by (rule outer_loop_nat [OF _ _ n]) simp_all
  then have loop: "outer_loop (partial_table n 1) (int n) 1 = Inr (partial_table n (n + 1))"
    by simp
  have "computeCatalan (int n) = Inr (partial_table n (n + 1))"
    unfolding computeCatalan_def by (simp only: add create store loop bind.simps)
  then show ?thesis by (simp add: partial_table_def limit)
qed

lemma to_size_t_negative:
  assumes "INT_MIN \<le> n" "n < 0"
  shows "to_size_t n = n + 2 ^ 64"
proof -
  have "(n + 2 ^ 64) mod 2 ^ 64 = n + 2 ^ 64"
    using assms by (intro mod_pos_pos_trivial) (simp_all add: INT_MIN_def)
  then show ?thesis by (simp add: to_size_t_def)
qed

lemma vector_create_negative:
  "INT_MIN \<le> n \<Longrightarrow> n < 0 \<Longrightarrow> vector_create n v = Inl LengthError"
  by (simp add: vector_create_def to_size_t_negative vector_max_size_def INT_MIN_def)

lemma start_table:
  assumes "int_add limit 1 = Inr n" "vector_create n 0 = Inr c0" "vector_set c0 0 1 = Inr c"
  shows "0 \<le> limit \<and> limit < INT_MAX \<and> c = partial_table (nat limit) 1"
proof -
  have n: "n = limit + 1" "INT_MIN \<le> n" "n \<le> INT_MAX"
    using assms(1) by (auto simp: int_add_def split: if_splits)
  have "\<not> n < 0" using assms(2) vector_create_negative [OF n(2)] by auto
  then have size: "to_size_t n = n" using n(3) by (simp add: to_size_t_id)
  have c0: "c0 = replicate (nat n) 0"
    using assms(2) by (simp add: vector_create_def size split: if_splits)
  have "0 < length c0" and c: "c = c0[0 := 1]"
    using assms(3) by (auto simp: vector_set_def to_size_t_def split: if_splits)
  then have "0 < n" by (simp add: c0)
  then have "nat n = Suc (nat limit)" using n(1) by simp
  then show ?thesis
    using \<open>0 < n\<close> n by (simp add: c c0 partial_table_def spec_catalan.simps)
qed

lemma occurs_invariant:
  assumes "occurs limit cfg"
  shows "0 \<le> limit \<and> limit < INT_MAX \<and> length (table_of cfg) = nat limit + 1 \<and>
         table_ok (table_of cfg) \<and>
         (case cfg of
            AtOuter c idx \<Rightarrow> 1 \<le> idx \<and> idx \<le> limit + 1
          | AtInner c idx k \<Rightarrow> 1 \<le> idx \<and> idx \<le> limit \<and> 0 \<le> k \<and> k \<le> idx)"
  using assms
proof (induction rule: occurs.induct)
  case (start n c0 c)
  from start_table [OF start] show ?case
    by (simp add: table_ok_partial_table length_partial_table)
next
  case (enter c idx)
  then show ?case by simp
next
  case (iterate c idx k c' k')
  then have inv: "0 \<le> limit" "limit < INT_MAX" "length c = nat limit + 1" "table_ok c"
    "1 \<le> idx" "idx \<le> limit" "0 \<le> k" by simp_all
  have k': "k' = k + 1" using iterate.hyps(4) by (auto simp: int_add_def split: if_splits)
  have "loop_body c (int (nat idx)) (int (nat k)) =
          Inr (c[nat idx := (c ! nat idx + (c ! nat k * c ! (nat idx - 1 - nat k)) mod MODULO)
                 mod MODULO])"
    using inv iterate.hyps(2) by (intro loop_body_nat) simp_all
  then have "c' = c[nat idx := (c ! nat idx + (c ! nat k * c ! (nat idx - 1 - nat k)) mod MODULO)
                    mod MODULO]"
    using inv iterate.hyps(3) by simp
  then have "length c' = length c" "table_ok c'"
    using inv(4) by (simp_all add: table_ok_update in_range_mod)
  then show ?case using inv iterate.hyps(2) k' by simp
next
  case (leave c idx k idx')
  then have "idx' = idx + 1" by (auto simp: int_add_def split: if_splits)
  then show ?case using leave by simp
qed

lemma occurs_on_path:
  assumes "occurs limit cfg"
  shows "computeCatalan limit =
           (case cfg of
              AtOuter c idx \<Rightarrow> outer_loop c limit idx
            | AtInner c idx k \<Rightarrow>
                bind (inner_loop c idx k) (\<lambda>c'.
                bind (int_add idx 1) (\<lambda>idx'.
                outer_loop c' limit idx')))"
  using assms
proof (induction rule: occurs.induct)
  case (start n c0 c)
  then show ?case by (simp add: computeCatalan_def)
next
  case (enter c idx)
  then show ?case by (subst (asm) outer_loop.simps) simp
next
  case (iterate c idx k c' k')
  then show ?case by (subst (asm) inner_loop.simps) simp
next
  case (leave c idx k idx')
  then show ?case by (subst (asm) inner_loop.simps) simp
qed







lemma computeCatalan_Inr_limit:
  assumes "computeCatalan limit = Inr result"
  shows "limit < INT_MAX"
proof (rule ccontr)
  assume "\<not> limit < INT_MAX"
  then have "int_add limit 1 = Inl IntOverflow" by (simp add: int_add_def)
  then show False using assms by (simp add: computeCatalan_def)
qed

lemma computeCatalan_negative:
  assumes "INT_MIN \<le> limit" "limit < - 1"
  shows "computeCatalan limit = Inl LengthError"
proof -
  have "int_add limit 1 = Inr (limit + 1)"
    using assms by (simp add: int_add_def INT_MIN_def INT_MAX_def)
  moreover have "vector_create (limit + 1) 0 = Inl LengthError"
    using assms by (intro vector_create_negative) (simp_all add: INT_MIN_def)
  ultimately show ?thesis by (simp add: computeCatalan_def)
qed

lemma computeCatalan_minus_one: "computeCatalan (- 1) = Inl OutOfBounds"
  by (simp add: computeCatalan_def int_add_def INT_MIN_def INT_MAX_def vector_create_def
      to_size_t_def vector_max_size_def vector_set_def)

lemma sum_table:
  assumes "idx \<le> n"
  shows "(\<Sum>k = 0..<Suc idx. (map spec_catalan [0..<n + 1] ! k *
            map spec_catalan [0..<n + 1] ! (Suc idx - 1 - k)) mod MODULO) =
         (\<Sum>k = 0..<Suc idx. (spec_catalan k * spec_catalan (idx - k)) mod MODULO)"
  using assms by (intro sum.cong) (simp_all del: upt_Suc)

lemma take_table:
  "n \<le> m \<Longrightarrow> take (n + 1) (map spec_catalan [0..<m + 1]) = map spec_catalan [0..<n + 1]"
  by (simp only: take_map take_upt) (simp add: take_map min_def del: upt_Suc)

lemma occurs_inner_accesses:
  assumes "occurs limit (AtInner c idx k)" "k < idx"
  shows "length c = nat limit + 1" "1 \<le> idx" "idx \<le> limit" "0 \<le> k" "limit < INT_MAX"
    "table_ok c"
    "vector_at c idx = Inr (c ! nat idx)"
    "vector_at c k = Inr (c ! nat k)"
    "vector_at c (idx - k - 1) = Inr (c ! nat (idx - k - 1))"
    "vector_set c idx v = Inr (c[nat idx := v])"
proof -
  from occurs_invariant [OF assms(1)]
  show inv: "length c = nat limit + 1" "1 \<le> idx" "idx \<le> limit" "0 \<le> k" "limit < INT_MAX"
    "table_ok c"
    by simp_all
  have at: "vector_at c j = Inr (c ! nat j)" "vector_set c j v = Inr (c[nat j := v])"
    if "0 \<le> j" "j \<le> idx" for j
  proof -
    have j: "int (nat j) = j" using that by simp
    have b: "nat j < length c" "int (nat j) \<le> INT_MAX" using that inv by simp_all
    show "vector_at c j = Inr (c ! nat j)"
      using vector_at_nat [OF b] by (simp only: j)
    show "vector_set c j v = Inr (c[nat j := v])"
      using vector_set_nat [OF b] by (simp only: j)
  qed
  show "vector_at c idx = Inr (c ! nat idx)" "vector_set c idx v = Inr (c[nat idx := v])"
    using at [of idx] inv by simp_all
  show "vector_at c k = Inr (c ! nat k)"
    using at(1) [of k] inv assms(2) by simp
  show "vector_at c (idx - k - 1) = Inr (c ! nat (idx - k - 1))"
    using at(1) [of "idx - k - 1"] inv assms(2) by simp
qed

lemma occurs_inner_body:
  assumes "occurs limit (AtInner c idx k)" "k < idx"
  shows "loop_body c idx k =
           Inr (c[nat idx := (c ! nat idx + (c ! nat k * c ! nat (idx - k - 1)) mod MODULO)
                  mod MODULO])"
proof -
  note inv = occurs_inner_accesses [OF assms]
  have "loop_body c (int (nat idx)) (int (nat k)) =
          Inr (c[nat idx := (c ! nat idx + (c ! nat k * c ! (nat idx - 1 - nat k)) mod MODULO)
                 mod MODULO])"
    using inv(1-6) assms(2) by (intro loop_body_nat) simp_all
  moreover have "nat idx - 1 - nat k = nat (idx - k - 1)"
    using inv(2,4) assms(2) by simp
  ultimately show ?thesis using inv(2,4) by simp
qed

lemma occurs_example: "occurs 1 (AtInner [1, 0] 1 0)"
proof -
  have "int_add 1 1 = Inr 2" by code_simp
  moreover have "vector_create 2 0 = Inr [0, 0]" by code_simp
  moreover have "vector_set [0, 0] 0 1 = Inr [1, 0]" by code_simp
  ultimately have "occurs 1 (AtOuter [1, 0] 1)" by (rule occurs.start)
  then show ?thesis by (rule occurs.enter) simp
qed

lemma inner_loop_occurs:
  "inner_loop c idx k = Inr c' \<Longrightarrow> occurs limit (AtInner c idx k) \<Longrightarrow> k \<le> idx
     \<Longrightarrow> occurs limit (AtInner c' idx idx)"
proof (induction c idx k rule: inner_loop.induct)
  case (1 c idx k)
  show ?case
  proof (cases "k < idx")
    case True
    with "1.prems"(1) obtain c1 k' where
      s: "loop_body c idx k = Inr c1" "int_add k 1 = Inr k'" "inner_loop c1 idx k' = Inr c'"
      by (subst (asm) inner_loop.simps)
         (cases "loop_body c idx k"; cases "int_add k 1"; simp)
    have "occurs limit (AtInner c1 idx k')"
      using "1.prems"(2) True s(1,2) by (rule occurs.iterate)
    moreover have "k' \<le> idx"
      using s(2) True by (auto simp: int_add_def split: if_splits)
    ultimately show ?thesis
      using "1.IH" [OF True s(1,2) s(3)] by simp
  next
    case False
    with "1.prems" have "k = idx" "c' = c"
      by (simp_all add: inner_loop.simps)
    with "1.prems"(2) show ?thesis by simp
  qed
qed

lemma outer_loop_occurs:
  "outer_loop c limit idx = Inr c' \<Longrightarrow> occurs limit (AtOuter c idx) \<Longrightarrow> idx \<le> limit + 1
     \<Longrightarrow> occurs limit (AtOuter c' (limit + 1))"
proof (induction c limit idx rule: outer_loop.induct)
  case (1 c limit idx)
  show ?case
  proof (cases "idx \<le> limit")
    case True
    with "1.prems"(1) obtain c1 idx' where
      s: "inner_loop c idx 0 = Inr c1" "int_add idx 1 = Inr idx'"
         "outer_loop c1 limit idx' = Inr c'"
      by (subst (asm) outer_loop.simps)
         (cases "inner_loop c idx 0"; cases "int_add idx 1"; simp)
    have idx: "1 \<le> idx" using occurs_invariant [OF "1.prems"(2)] by simp
    have "occurs limit (AtInner c idx 0)"
      using "1.prems"(2) True by (rule occurs.enter)
    with s(1) idx have inner: "occurs limit (AtInner c1 idx idx)"
      by (intro inner_loop_occurs [of c idx 0]) simp_all
    have "occurs limit (AtOuter c1 idx')"
      by (rule occurs.leave [OF inner _ s(2)]) simp
    moreover have "idx' \<le> limit + 1"
      using s(2) True by (auto simp: int_add_def split: if_splits)
    ultimately show ?thesis
      using "1.IH" [OF True s(1,2) _ _ ] s(3) by simp
  next
    case False
    with "1.prems" have "idx = limit + 1" "c' = c"
      by (simp_all add: outer_loop.simps)
    with "1.prems"(2) show ?thesis by simp
  qed
qed

lemma computeCatalan_occurs:
  assumes "computeCatalan limit = Inr result"
  shows "occurs limit (AtOuter result (limit + 1))"
proof -
  from assms obtain n c0 c where
    s: "int_add limit 1 = Inr n" "vector_create n 0 = Inr c0" "vector_set c0 0 1 = Inr c"
       "outer_loop c limit 1 = Inr result"
    unfolding computeCatalan_def
    by (cases "int_add limit 1"; simp; cases "vector_create (limit + 1) 0"; simp;
        cases "vector_set (projr (vector_create (limit + 1) 0)) 0 1"; simp)
       (auto simp: int_add_def split: if_splits)
  have occ: "occurs limit (AtOuter c 1)" using s(1,2,3) by (rule occurs.start)
  moreover have "1 \<le> limit + 1" using start_table [OF s(1,2,3)] by simp
  ultimately show ?thesis using s(4) by (intro outer_loop_occurs [of c limit 1])
qed





lemma inner_loop_total: "inner_loop_dom (c, idx, k)"
proof (induction "nat (idx - k)" arbitrary: c k rule: less_induct)
  case less
  show ?case
  proof (rule accpI)
    fix y
    assume "inner_loop_rel y (c, idx, k)"
    then show "inner_loop_dom y"
    proof cases
      case (1 v va)
      then have "nat (idx - va) < nat (idx - k)"
        by (auto simp: int_add_def split: if_splits)
      then show ?thesis unfolding 1(1) by (rule less)
    qed
  qed
qed

lemma outer_loop_total: "outer_loop_dom (c, limit, idx)"
proof (induction "nat (limit + 1 - idx)" arbitrary: c idx rule: less_induct)
  case less
  show ?case
  proof (rule accpI)
    fix y
    assume "outer_loop_rel y (c, limit, idx)"
    then show "outer_loop_dom y"
    proof cases
      case (1 v va)
      then have "nat (limit + 1 - va) < nat (limit + 1 - idx)"
        by (auto simp: int_add_def split: if_splits)
      then show ?thesis unfolding 1(1) by (rule less)
    qed
  qed
qed

lemma write_back_simps [simp]:
  "write_back w a (Inl e) = Inl e"
  "write_back w a (Inr c) = Inr ((), w\<lparr>heap := (heap w)[a := c]\<rparr>)"
  by (simp_all add: write_back_def)

lemma loop_body_st_sim:
  assumes "a < length (heap w)"
  shows "loop_body_st a idx k w = write_back w a (loop_body (heap w ! a) idx k)"
  using assms
  unfolding loop_body_st_def loop_body_def
  by (auto simp: bind_st_def pure_expr_def vector_read_def vector_write_def vector_at_def
      vector_set_def split: sum.splits)

lemma inner_loop_st_sim:
  assumes "a < length (heap w)"
  shows "inner_loop_st a idx k w = write_back w a (inner_loop (heap w ! a) idx k)"
  using assms
proof (induction a idx k w rule: inner_loop_st.induct)
  case (1 a idx k w)
  show ?case
  proof (cases "k < idx")
    case False
    then show ?thesis
      by (subst inner_loop_st.simps, subst inner_loop.simps) simp
  next
    case True
    note body = loop_body_st_sim [OF "1.prems", of idx k]
    show ?thesis
    proof (cases "loop_body (heap w ! a) idx k")
      case (Inl e)
      with True body show ?thesis
        by (subst inner_loop_st.simps, subst inner_loop.simps) (simp add: bind_st_def)
    next
      case (Inr c1)
      define w1 where "w1 = w\<lparr>heap := (heap w)[a := c1]\<rparr>"
      have b1: "loop_body_st a idx k w = Inr ((), w1)"
        using body Inr by (simp add: w1_def)
      have w1: "a < length (heap w1)" "heap w1 ! a = c1"
        using "1.prems" by (simp_all add: w1_def)
      show ?thesis
      proof (cases "int_add k 1")
        case (Inl e)
        with True b1 Inr show ?thesis
          by (subst inner_loop_st.simps, subst inner_loop.simps)
             (simp add: bind_st_def pure_expr_def)
      next
        case (Inr k')
        then have p: "pure_expr (int_add k 1) w1 = Inr (k', w1)"
          by (simp add: pure_expr_def)
        have "inner_loop_st a idx k' w1 = write_back w1 a (inner_loop (heap w1 ! a) idx k')"
          using True b1 p w1(1) by (rule "1.IH")
        also have "\<dots> = write_back w a (inner_loop c1 idx k')"
          unfolding w1(2) by (cases "inner_loop c1 idx k'") (simp_all add: w1_def)
        finally show ?thesis
          using True b1 p Inr \<open>loop_body (heap w ! a) idx k = Inr c1\<close>
          by (subst inner_loop_st.simps, subst inner_loop.simps) (simp add: bind_st_def)
      qed
    qed
  qed
qed

lemma outer_loop_st_sim:
  assumes "a < length (heap w)"
  shows "outer_loop_st a limit idx w = write_back w a (outer_loop (heap w ! a) limit idx)"
  using assms
proof (induction a limit idx w rule: outer_loop_st.induct)
  case (1 a limit idx w)
  show ?case
  proof (cases "idx \<le> limit")
    case False
    then show ?thesis
      by (subst outer_loop_st.simps, subst outer_loop.simps) simp
  next
    case True
    note inner = inner_loop_st_sim [OF "1.prems", of idx 0]
    show ?thesis
    proof (cases "inner_loop (heap w ! a) idx 0")
      case (Inl e)
      with True inner show ?thesis
        by (subst outer_loop_st.simps, subst outer_loop.simps) (simp add: bind_st_def)
    next
      case (Inr c1)
      define w1 where "w1 = w\<lparr>heap := (heap w)[a := c1]\<rparr>"
      have b1: "inner_loop_st a idx 0 w = Inr ((), w1)"
        using inner Inr by (simp add: w1_def)
      have w1: "a < length (heap w1)" "heap w1 ! a = c1"
        using "1.prems" by (simp_all add: w1_def)
      show ?thesis
      proof (cases "int_add idx 1")
        case (Inl e)
        with True b1 Inr show ?thesis
          by (subst outer_loop_st.simps, subst outer_loop.simps)
             (simp add: bind_st_def pure_expr_def)
      next
        case (Inr idx')
        then have p: "pure_expr (int_add idx 1) w1 = Inr (idx', w1)"
          by (simp add: pure_expr_def)
        have "outer_loop_st a limit idx' w1 =
                write_back w1 a (outer_loop (heap w1 ! a) limit idx')"
          using True b1 p w1(1) by (rule "1.IH")
        also have "\<dots> = write_back w a (outer_loop c1 limit idx')"
          unfolding w1(2) by (cases "outer_loop c1 limit idx'") (simp_all add: w1_def)
        finally show ?thesis
          using True b1 p Inr \<open>inner_loop (heap w ! a) idx 0 = Inr c1\<close>
          by (subst outer_loop_st.simps, subst outer_loop.simps) (simp add: bind_st_def)
      qed
    qed
  qed
qed

lemma computeCatalan_st_sim:
  "computeCatalan_st limit w =
     (case computeCatalan limit of
        Inl e \<Rightarrow> Inl e
      | Inr xs \<Rightarrow> Inr (length (heap w), w\<lparr>heap := heap w @ [xs]\<rparr>))"
proof (cases "int_add limit 1")
  case (Inl e)
  then show ?thesis
    by (simp add: computeCatalan_st_def computeCatalan_def bind_st_def pure_expr_def)
next
  case n: (Inr n)
  show ?thesis
  proof (cases "vector_create n 0")
    case (Inl e)
    then have "vector_new n 0 w = Inl e"
      by (auto simp: vector_new_def vector_create_def split: if_splits)
    with n Inl show ?thesis
      by (simp add: computeCatalan_st_def computeCatalan_def bind_st_def pure_expr_def)
  next
    case c0: (Inr c0)
    define a where "a = length (heap w)"
    define w0 where "w0 = w\<lparr>heap := heap w @ [c0]\<rparr>"
    have new: "vector_new n 0 w = Inr (a, w0)"
      using c0 by (auto simp: vector_new_def vector_create_def a_def w0_def split: if_splits)
    have w0: "a < length (heap w0)" "heap w0 ! a = c0"
      by (simp_all add: a_def w0_def)
    show ?thesis
    proof (cases "vector_set c0 0 1")
      case (Inl e)
      then have "vector_write a 0 1 w0 = Inl e"
        using w0 by (auto simp: vector_write_def vector_set_def split: if_splits)
      with n c0 new Inl show ?thesis
        by (simp add: computeCatalan_st_def computeCatalan_def bind_st_def pure_expr_def)
    next
      case c: (Inr c)
      define w1 where "w1 = w\<lparr>heap := heap w @ [c]\<rparr>"
      have store: "vector_write a 0 1 w0 = Inr ((), w1)"
        using c w0 by (auto simp: vector_write_def vector_set_def w1_def w0_def a_def
            split: if_splits)
      have w1: "a < length (heap w1)" "heap w1 ! a = c"
        by (simp_all add: a_def w1_def)
      have "outer_loop_st a limit 1 w1 = write_back w1 a (outer_loop c limit 1)"
        using outer_loop_st_sim [OF w1(1), of limit 1] by (simp only: w1(2))
      then have loop: "outer_loop_st a limit 1 w1 =
          (case outer_loop c limit 1 of Inl e \<Rightarrow> Inl e
           | Inr xs \<Rightarrow> Inr ((), w\<lparr>heap := heap w @ [xs]\<rparr>))"
        by (cases "outer_loop c limit 1") (simp_all add: w1_def a_def)
      show ?thesis
        using n c0 c new store loop
        by (cases "outer_loop c limit 1")
           (simp_all add: computeCatalan_st_def computeCatalan_def bind_st_def pure_expr_def
             a_def)
    qed
  qed
qed

lemma ll_mod_MODULO_eq: "ll_mod_MODULO x = sgn x * (\<bar>x\<bar> mod 1000000007)"
  by (simp add: ll_mod_MODULO_def signed_modulo_int_def MODULO_def)

lemma loop_body_any_table:
  assumes "0 \<le> k" "k < idx" "idx < int (length c)" "idx \<le> INT_MAX"
  shows "loop_body c idx k =
           (let a = c ! nat k; b = c ! nat (idx - k - 1); d = c ! nat idx;
                s = d + ll_mod_MODULO (a * b)
            in if LLONG_MIN \<le> a * b \<and> a * b \<le> LLONG_MAX \<and> LLONG_MIN \<le> s \<and> s \<le> LLONG_MAX
               then Inr (c[nat idx := ll_mod_MODULO s])
               else Inl LongLongOverflow)"
proof -
  have size: "to_size_t idx = idx" "to_size_t k = k" "to_size_t (idx - k - 1) = idx - k - 1"
    using assms by (simp_all add: to_size_t_id)
  have sub: "int_sub idx k = Inr (idx - k)" "int_sub (idx - k) 1 = Inr (idx - k - 1)"
    using assms by (simp_all add: int_sub_def INT_MIN_def)
  show ?thesis
    using assms unfolding loop_body_def
    by (simp add: vector_at_def vector_set_def size sub ll_mul_def ll_add_def Let_def)
qed

lemma inner_loop_partial_table:
  assumes "1 \<le> i" "i \<le> n" "int n < INT_MAX"
  shows "inner_loop (partial_table n i) (int i) 0 = Inr (partial_table n (Suc i))"
proof -
  obtain i' where i': "i = Suc i'" using assms(1) by (cases i) auto
  have len: "i < length (partial_table n i)"
    using assms(2) by (simp add: length_partial_table)
  have max: "int i \<le> INT_MAX" using assms(2,3) by simp
  have "inner_loop (partial_table n i) (int i) (int 0) =
          Inr ((partial_table n i)[i := (partial_table n i ! i +
                 convolution (partial_table n i) i 0) mod MODULO])"
    by (rule inner_loop_nat [OF table_ok_partial_table _ len max]) simp
  also have "partial_table n i ! i = 0"
    using assms(2) by (simp add: partial_table_nth_ge)
  also have "(0 + convolution (partial_table n i) i 0) mod MODULO = spec_catalan i"
    by (simp add: i' convolution_partial_table)
  also have "(partial_table n i)[i := spec_catalan i] = partial_table n (Suc i)"
    by (rule partial_table_step [OF assms(2)])
  finally show ?thesis by simp
qed

lemma occurs_outer_partial_table:
  assumes "int n < INT_MAX" "1 \<le> i" "i \<le> n + 1"
  shows "occurs (int n) (AtOuter (partial_table n i) (int i))"
  using assms(2,3)
proof (induction i rule: nat_induct_at_least)
  case base
  have add: "int_add (int n) 1 = Inr (int (n + 1))"
    using assms(1) by (simp add: int_add_def INT_MIN_def)
  have size: "to_size_t (int (n + 1)) = int (n + 1)"
    using assms(1) by (intro to_size_t_id) simp_all
  have create: "vector_create (int (n + 1)) 0 = Inr (replicate (n + 1) 0)"
  proof -
    have "\<not> int (n + 1) > vector_max_size"
      using assms(1) by (simp add: vector_max_size_def INT_MAX_def)
    then show ?thesis
      unfolding vector_create_def size by (simp only: if_False nat_int)
  qed
  have store: "vector_set (replicate (n + 1) 0) 0 1 = Inr (partial_table n 1)"
    by (simp add: vector_set_def to_size_t_def partial_table_def spec_catalan.simps)
  have "occurs (int n) (AtOuter (partial_table n 1) 1)"
    using add create store by (rule occurs.start)
  then show ?case by simp
next
  case (Suc i)
  then have i: "1 \<le> i" "i \<le> n" by simp_all
  have outer: "occurs (int n) (AtOuter (partial_table n i) (int i))"
    using Suc by simp
  have "occurs (int n) (AtInner (partial_table n i) (int i) 0)"
    using outer i(2) by (intro occurs.enter) simp_all
  then have inner: "occurs (int n) (AtInner (partial_table n (Suc i)) (int i) (int i))"
    using inner_loop_partial_table [OF i assms(1)]
    by (intro inner_loop_occurs [of "partial_table n i" "int i" 0]) simp_all
  have inc: "int_add (int i) 1 = Inr (int (Suc i))"
    using i(2) assms(1) by (simp add: int_add_def INT_MIN_def)
  show ?case
    by (rule occurs.leave [OF inner _ inc]) simp
qed

lemma spec_catalan_to_21:
  "map spec_catalan [0..<22] =
     [1, 1, 2, 5, 14, 42, 132, 429, 1430, 4862, 16796, 58786, 208012, 742900,
      2674440, 9694845, 35357670, 129644790, 477638700, 767263183, 564120378,
      466266852]"
proof -
  have "computeCatalan 21 =
     Inr [1, 1, 2, 5, 14, 42, 132, 429, 1430, 4862, 16796, 58786, 208012, 742900,
      2674440, 9694845, 35357670, 129644790, 477638700, 767263183, 564120378,
      466266852]"
    by code_simp
  moreover have "computeCatalan 21 = Inr (map spec_catalan [0..<nat 21 + 1])"
    by (rule computeCatalan_table) (simp_all add: INT_MAX_def)
  ultimately show ?thesis by simp
qed

lemma occurs_example_22:
  "occurs 22 (AtInner
     [1, 1, 2, 5, 14, 42, 132, 429, 1430, 4862, 16796, 58786, 208012, 742900,
      2674440, 9694845, 35357670, 129644790, 477638700, 767263183, 564120378,
      466266852, 466266852] 22 1) \<and>
   occurs 22 (AtInner
     [1, 1, 2, 5, 14, 42, 132, 429, 1430, 4862, 16796, 58786, 208012, 742900,
      2674440, 9694845, 35357670, 129644790, 477638700, 767263183, 564120378,
      466266852, 30387223] 22 2)"
proof -
  have "occurs (int 22) (AtOuter (partial_table 22 22) (int 22))"
    by (rule occurs_outer_partial_table) (simp_all add: INT_MAX_def)
  moreover have "partial_table 22 22 =
     [1, 1, 2, 5, 14, 42, 132, 429, 1430, 4862, 16796, 58786, 208012, 742900,
      2674440, 9694845, 35357670, 129644790, 477638700, 767263183, 564120378,
      466266852, 0]"
    by (simp add: partial_table_def spec_catalan_to_21 del: upt_rec_numeral)
  ultimately have "occurs 22 (AtOuter
     [1, 1, 2, 5, 14, 42, 132, 429, 1430, 4862, 16796, 58786, 208012, 742900,
      2674440, 9694845, 35357670, 129644790, 477638700, 767263183, 564120378,
      466266852, 0] 22)"
    by simp
  then have c0: "occurs 22 (AtInner
     [1, 1, 2, 5, 14, 42, 132, 429, 1430, 4862, 16796, 58786, 208012, 742900,
      2674440, 9694845, 35357670, 129644790, 477638700, 767263183, 564120378,
      466266852, 0] 22 0)"
    by (rule occurs.enter) simp
  have b0: "loop_body
     [1, 1, 2, 5, 14, 42, 132, 429, 1430, 4862, 16796, 58786, 208012, 742900,
      2674440, 9694845, 35357670, 129644790, 477638700, 767263183, 564120378,
      466266852, 0] 22 0 =
     Inr [1, 1, 2, 5, 14, 42, 132, 429, 1430, 4862, 16796, 58786, 208012, 742900,
      2674440, 9694845, 35357670, 129644790, 477638700, 767263183, 564120378,
      466266852, 466266852]"
    by code_simp
  have i0: "int_add 0 1 = Inr 1" by code_simp
  have c1: "occurs 22 (AtInner
     [1, 1, 2, 5, 14, 42, 132, 429, 1430, 4862, 16796, 58786, 208012, 742900,
      2674440, 9694845, 35357670, 129644790, 477638700, 767263183, 564120378,
      466266852, 466266852] 22 1)"
    by (rule occurs.iterate [OF c0 _ b0 i0]) simp
  have b1: "loop_body
     [1, 1, 2, 5, 14, 42, 132, 429, 1430, 4862, 16796, 58786, 208012, 742900,
      2674440, 9694845, 35357670, 129644790, 477638700, 767263183, 564120378,
      466266852, 466266852] 22 1 =
     Inr [1, 1, 2, 5, 14, 42, 132, 429, 1430, 4862, 16796, 58786, 208012, 742900,
      2674440, 9694845, 35357670, 129644790, 477638700, 767263183, 564120378,
      466266852, 30387223]"
    by code_simp
  have i1: "int_add 1 1 = Inr 2" by code_simp
  have c2: "occurs 22 (AtInner
     [1, 1, 2, 5, 14, 42, 132, 429, 1430, 4862, 16796, 58786, 208012, 742900,
      2674440, 9694845, 35357670, 129644790, 477638700, 767263183, 564120378,
      466266852, 30387223] 22 2)"
    by (rule occurs.iterate [OF c1 _ b1 i1]) simp
  from c1 c2 show ?thesis by (rule conjI)
qed

section \<open>The claims\<close>

text \<open>
  In the claims \<open>generate\<close> is \<open>computeCatalan\<close>, and a limit is a value of the
  parameter's type \<open>int\<close>: an integer from \<open>INT_MIN\<close> to \<open>INT_MAX\<close>. A call that
  returns its table is \<open>Inr\<close> of it; \<open>Inl\<close> is a call that does not return.
\<close>

text \<open>
  \<^bold>\<open>C1\<close>, as amended. For every limit with \<open>0 \<le> limit < INT_MAX\<close>, \<open>computeCatalan limit\<close>
  returns a sequence of length \<open>limit + 1\<close> whose element 0 is 1 and whose element
  \<open>idx\<close>, for each \<open>idx\<close> from 1 to \<open>limit\<close>, is the sum over \<open>k\<close> in \<open>[0, idx - 1]\<close> of
  \<open>(result[k] * result[idx - 1 - k]) mod MODULO\<close>, reduced \<open>mod MODULO\<close>; and
  \<open>computeCatalan 0\<close> returns \<open>[1]\<close>.
\<close>

theorem computeCatalan_recurrence:
  assumes "0 \<le> limit" "limit < INT_MAX"
  shows "\<exists>result. computeCatalan limit = Inr result \<and> length result = nat limit + 1 \<and>
           result ! 0 = 1 \<and>
           (\<forall>idx \<in> {1..nat limit}.
              result ! idx =
                (\<Sum>k = 0..<idx. (result ! k * result ! (idx - 1 - k)) mod MODULO) mod MODULO) \<and>
           computeCatalan 0 = Inr [1]"
proof -
  define n where "n = nat limit"
  define result where "result = map spec_catalan [0..<n + 1]"
  have table: "computeCatalan limit = Inr result"
    using computeCatalan_table [OF assms] by (simp only: result_def n_def)
  have len: "length result = n + 1" by (simp add: result_def)
  have first: "result ! 0 = 1"
    unfolding result_def by (subst nth_map) (simp_all add: spec_catalan.simps del: upt_Suc)
  have step: "result ! idx =
      (\<Sum>k = 0..<idx. (result ! k * result ! (idx - 1 - k)) mod MODULO) mod MODULO"
    if "idx \<in> {1..n}" for idx
  proof -
    from that obtain i where i: "idx = Suc i" "i < n" by (cases idx) auto
    have "result ! idx = spec_catalan (Suc i)"
      using i unfolding result_def by (subst nth_map) (simp_all del: upt_Suc)
    also have "\<dots> = (\<Sum>k = 0..<Suc i. (spec_catalan k * spec_catalan (i - k)) mod MODULO) mod MODULO"
      by (simp only: spec_catalan.simps)
    also have "(\<Sum>k = 0..<Suc i. (spec_catalan k * spec_catalan (i - k)) mod MODULO) =
        (\<Sum>k = 0..<Suc i. (result ! k * result ! (Suc i - 1 - k)) mod MODULO)"
      unfolding result_def using i(2) by (intro sum_table [symmetric]) simp
    finally show ?thesis by (simp only: i(1))
  qed
  have zero: "computeCatalan 0 = Inr [1]" by code_simp
  show ?thesis
    using table len first step zero unfolding n_def by blast
qed

theorem computeCatalan_recurrence_witness:
  "(0::int) \<le> 3 \<and> 3 < INT_MAX \<and>
   (\<exists>result. computeCatalan 3 = Inr result \<and> length result = 4 \<and> result ! 0 = 1 \<and>
      result ! 3 = (\<Sum>k = 0..<3. (result ! k * result ! (2 - k)) mod MODULO) mod MODULO)"
proof -
  have h: "(0::int) \<le> 3" "3 < INT_MAX" by (simp_all add: INT_MAX_def)
  from computeCatalan_recurrence [OF h] obtain result where
    r: "computeCatalan 3 = Inr result" "length result = nat 3 + 1" "result ! 0 = 1"
      "\<forall>idx \<in> {1..nat 3}. result ! idx =
         (\<Sum>k = 0..<idx. (result ! k * result ! (idx - 1 - k)) mod MODULO) mod MODULO"
    by blast
  have "(3::nat) \<in> {1..nat 3}" by simp
  with r(4) have "result ! 3 =
      (\<Sum>k = 0..<3. (result ! k * result ! (3 - 1 - k)) mod MODULO) mod MODULO"
    by blast
  then show ?thesis using h r(1,2,3) by auto
qed

text \<open>
  C1 as stated, for every non-negative limit, fails at the largest \<open>int\<close>: the size
  \<open>limit + 1\<close> of the table overflows there, and no sequence is returned.
\<close>

theorem computeCatalan_largest_int_counterexample:
  "computeCatalan 2147483647 = Inl IntOverflow"
  by (simp add: computeCatalan_def int_add_def INT_MIN_def INT_MAX_def)

text \<open>
  \<^bold>\<open>C2\<close>. For every limit \<open>\<ge> 0\<close>, every element of the sequence that
  \<open>computeCatalan limit\<close> returns is at least 0 and less than \<open>MODULO\<close>. (Below
  \<open>INT_MAX\<close> a sequence is returned, so the statement is not an empty one.)
\<close>

theorem computeCatalan_elements_in_range:
  assumes "0 \<le> limit"
  shows "(limit < INT_MAX \<longrightarrow> (\<exists>result. computeCatalan limit = Inr result)) \<and>
         (\<forall>result. computeCatalan limit = Inr result \<longrightarrow>
            (\<forall>x \<in> set result. 0 \<le> x \<and> x < MODULO))"
proof (intro conjI allI impI)
  assume "limit < INT_MAX"
  with assms show "\<exists>result. computeCatalan limit = Inr result"
    by (simp add: computeCatalan_table)
next
  fix result
  assume r: "computeCatalan limit = Inr result"
  then have "limit < INT_MAX" by (rule computeCatalan_Inr_limit)
  with assms r have "result = map spec_catalan [0..<nat limit + 1]"
    by (simp add: computeCatalan_table)
  then have "\<forall>x \<in> set result. in_range x"
    using in_range_spec_catalan by auto
  then show "\<forall>x \<in> set result. 0 \<le> x \<and> x < MODULO"
    by (simp add: in_range_def)
qed

theorem computeCatalan_elements_in_range_witness:
  "(0::int) \<le> 4 \<and> computeCatalan 4 = Inr [1, 1, 2, 5, 14] \<and> (0::int) \<le> 14 \<and> 14 < MODULO"
proof -
  have r: "computeCatalan 4 = Inr [1, 1, 2, 5, 14]" by code_simp
  have h: "(0::int) \<le> 4" by simp
  have "\<forall>x \<in> set [1, 1, 2, 5, 14]. 0 \<le> x \<and> x < MODULO"
    using computeCatalan_elements_in_range [OF h] r by blast
  then show ?thesis using r by simp
qed

text \<open>
  \<^bold>\<open>C3\<close>. Let \<open>limit \<ge> 0\<close>. The call \<open>computeCatalan limit\<close> never ends in an overflow
  of \<open>long long\<close>. \<open>MODULO\<close> is 1000000007, which has 30 bits, and a \<open>long long\<close> holds
  every value up to \<open>2 ^ 60\<close>, twice that width, so the product of two values in
  \<open>[0, MODULO)\<close> does not overflow. The reduction is the remainder of the truncating
  division by 1000000007.

  On every table, whatever its entries, one run of the body of the inner loop forms
  the product of the two entries it reads in 64 bits, reduces the product, adds the
  reduced product to the entry at \<open>idx\<close> in 64 bits, reduces the sum, and stores the
  reduced sum: in this order, with an overflow of the product or of the sum as the only
  failures. (With one reduction only, of the sum of the entry and the product, the
  stored value would differ, as on the table \<open>[1000000010, 1, - 5]\<close> of the witness.)

  Every configuration the call passes lies on its run (what remains to be computed from
  it is the result of the call), and all entries of its table are in \<open>[0, MODULO)\<close>.
  Where the body is about to run, the two values it reads are in \<open>[0, MODULO)\<close>, their
  product is formed without overflow, its reduction is the product \<open>mod 1000000007\<close>,
  the sum with the entry at \<open>idx\<close> is formed without overflow, and what is stored is
  that sum \<open>mod 1000000007\<close>, again in \<open>[0, MODULO)\<close>.
\<close>

theorem products_and_sums_in_range:
  assumes "0 \<le> limit"
  shows "computeCatalan limit \<noteq> Inl LongLongOverflow \<and>
         MODULO = 1000000007 \<and> MODULO < 2 ^ 30 \<and> (2::int) ^ (2 * 30) \<le> LLONG_MAX \<and>
         (\<forall>x. ll_mod_MODULO x = sgn x * (\<bar>x\<bar> mod 1000000007)) \<and>
         (\<forall>a b. in_range a \<and> in_range b \<longrightarrow> ll_mul a b = Inr (a * b)) \<and>
         (\<forall>c idx k. 0 \<le> k \<and> k < idx \<and> idx < int (length c) \<and> idx \<le> INT_MAX \<longrightarrow>
            loop_body c idx k =
              (let a = c ! nat k; b = c ! nat (idx - k - 1); d = c ! nat idx;
                   p = sgn (a * b) * (\<bar>a * b\<bar> mod 1000000007); s = d + p
               in if LLONG_MIN \<le> a * b \<and> a * b \<le> LLONG_MAX \<and>
                     LLONG_MIN \<le> s \<and> s \<le> LLONG_MAX
                  then Inr (c[nat idx := sgn s * (\<bar>s\<bar> mod 1000000007)])
                  else Inl LongLongOverflow)) \<and>
         (\<forall>cfg. occurs limit cfg \<longrightarrow>
            computeCatalan limit =
              (case cfg of
                 AtOuter c idx \<Rightarrow> outer_loop c limit idx
               | AtInner c idx k \<Rightarrow>
                   bind (inner_loop c idx k) (\<lambda>c'.
                   bind (int_add idx 1) (\<lambda>idx'.
                   outer_loop c' limit idx'))) \<and>
            table_ok (table_of cfg) \<and>
            (\<forall>c idx k. cfg = AtInner c idx k \<and> k < idx \<longrightarrow>
               (\<exists>a b s. vector_at c k = Inr a \<and> vector_at c (idx - k - 1) = Inr b \<and>
                  in_range a \<and> in_range b \<and> ll_mul a b = Inr (a * b) \<and>
                  ll_mod_MODULO (a * b) = (a * b) mod 1000000007 \<and>
                  in_range (ll_mod_MODULO (a * b)) \<and>
                  ll_add (c ! nat idx) (ll_mod_MODULO (a * b)) = Inr s \<and>
                  s = c ! nat idx + (a * b) mod 1000000007 \<and>
                  ll_mod_MODULO s = s mod 1000000007 \<and>
                  in_range (ll_mod_MODULO s) \<and>
                  loop_body c idx k = Inr (c[nat idx := ll_mod_MODULO s]))))"
proof (intro conjI allI impI)
  show "computeCatalan limit \<noteq> Inl LongLongOverflow"
  proof (cases "limit < INT_MAX")
    case True
    with assms show ?thesis by (simp add: computeCatalan_table)
  next
    case False
    then have "int_add limit 1 = Inl IntOverflow" by (simp add: int_add_def)
    then show ?thesis by (simp add: computeCatalan_def)
  qed
  show "MODULO = 1000000007" by (rule MODULO_def)
  show "MODULO < 2 ^ 30" by (simp add: MODULO_def)
  show "(2::int) ^ (2 * 30) \<le> LLONG_MAX" by (simp add: LLONG_MAX_def)
  show "ll_mod_MODULO x = sgn x * (\<bar>x\<bar> mod 1000000007)" for x
    by (rule ll_mod_MODULO_eq)
next
  fix a b assume "in_range a \<and> in_range b"
  then show "ll_mul a b = Inr (a * b)" by (simp add: ll_mul_in_range)
next
  fix c :: "int list" and idx k :: int
  assume "0 \<le> k \<and> k < idx \<and> idx < int (length c) \<and> idx \<le> INT_MAX"
  then have "loop_body c idx k =
           (let a = c ! nat k; b = c ! nat (idx - k - 1); d = c ! nat idx;
                s = d + ll_mod_MODULO (a * b)
            in if LLONG_MIN \<le> a * b \<and> a * b \<le> LLONG_MAX \<and> LLONG_MIN \<le> s \<and> s \<le> LLONG_MAX
               then Inr (c[nat idx := ll_mod_MODULO s])
               else Inl LongLongOverflow)"
    by (intro loop_body_any_table) simp_all
  then show "loop_body c idx k =
              (let a = c ! nat k; b = c ! nat (idx - k - 1); d = c ! nat idx;
                   p = sgn (a * b) * (\<bar>a * b\<bar> mod 1000000007); s = d + p
               in if LLONG_MIN \<le> a * b \<and> a * b \<le> LLONG_MAX \<and>
                     LLONG_MIN \<le> s \<and> s \<le> LLONG_MAX
                  then Inr (c[nat idx := sgn s * (\<bar>s\<bar> mod 1000000007)])
                  else Inl LongLongOverflow)"
    by (simp only: Let_def ll_mod_MODULO_eq)
next
  fix cfg assume occ: "occurs limit cfg"
  show "computeCatalan limit =
          (case cfg of
             AtOuter c idx \<Rightarrow> outer_loop c limit idx
           | AtInner c idx k \<Rightarrow>
               bind (inner_loop c idx k) (\<lambda>c'.
               bind (int_add idx 1) (\<lambda>idx'.
               outer_loop c' limit idx')))"
    by (rule occurs_on_path [OF occ])
  show "table_ok (table_of cfg)"
    using occurs_invariant [OF occ] by simp
next
  fix cfg c idx k
  assume "occurs limit cfg" and "cfg = AtInner c idx k \<and> k < idx"
  then have occ: "occurs limit (AtInner c idx k)" and k: "k < idx"
    by simp_all
  note inv = occurs_inner_accesses [OF occ k]
  define a where "a = c ! nat k"
  define b where "b = c ! nat (idx - k - 1)"
  define s where "s = c ! nat idx + (a * b) mod 1000000007"
  have s': "s = c ! nat idx + (a * b) mod MODULO" by (simp add: s_def MODULO_def)
  have r: "in_range a" "in_range b" "in_range (c ! nat idx)"
    using inv(1-6) k by (simp_all add: a_def b_def table_ok_nth)
  have p: "0 \<le> a * b" using product_bound(1) [OF r(1,2)] .
  have m: "ll_mod_MODULO (a * b) = (a * b) mod MODULO"
    using p by (rule ll_mod_MODULO_nonneg)
  have "0 \<le> s"
    using r(3) in_range_mod [of "a * b"] by (simp add: s' in_range_def)
  then have ms: "ll_mod_MODULO s = s mod MODULO" by (rule ll_mod_MODULO_nonneg)
  have "vector_at c k = Inr a" "vector_at c (idx - k - 1) = Inr b"
    using inv(8,9) by (simp_all add: a_def b_def)
  moreover have "ll_mul a b = Inr (a * b)" using r by (simp add: ll_mul_in_range)
  moreover have "ll_mod_MODULO (a * b) = (a * b) mod 1000000007"
    using m by (simp add: MODULO_def)
  moreover have "in_range (ll_mod_MODULO (a * b))" by (simp add: m in_range_mod)
  moreover have "ll_add (c ! nat idx) (ll_mod_MODULO (a * b)) = Inr s"
    using r(3) by (simp add: m s' ll_add_in_range in_range_mod)
  moreover have "s = c ! nat idx + (a * b) mod 1000000007" by (rule s_def)
  moreover have "ll_mod_MODULO s = s mod 1000000007"
    using ms by (simp add: MODULO_def)
  moreover have "in_range (ll_mod_MODULO s)" by (simp add: ms in_range_mod)
  moreover have "loop_body c idx k = Inr (c[nat idx := ll_mod_MODULO s])"
    using occurs_inner_body [OF occ k] unfolding ms by (simp add: s' a_def b_def)
  ultimately show "\<exists>a b s. vector_at c k = Inr a \<and> vector_at c (idx - k - 1) = Inr b \<and>
                  in_range a \<and> in_range b \<and> ll_mul a b = Inr (a * b) \<and>
                  ll_mod_MODULO (a * b) = (a * b) mod 1000000007 \<and>
                  in_range (ll_mod_MODULO (a * b)) \<and>
                  ll_add (c ! nat idx) (ll_mod_MODULO (a * b)) = Inr s \<and>
                  s = c ! nat idx + (a * b) mod 1000000007 \<and>
                  ll_mod_MODULO s = s mod 1000000007 \<and>
                  in_range (ll_mod_MODULO s) \<and>
                  loop_body c idx k = Inr (c[nat idx := ll_mod_MODULO s])"
    using r(1,2) by blast
qed

theorem products_and_sums_in_range_witness:
  "(0::int) \<le> 22 \<and>
   occurs 22 (AtInner
     [1, 1, 2, 5, 14, 42, 132, 429, 1430, 4862, 16796, 58786, 208012, 742900,
      2674440, 9694845, 35357670, 129644790, 477638700, 767263183, 564120378,
      466266852, 466266852] 22 1) \<and>
   loop_body
     [1, 1, 2, 5, 14, 42, 132, 429, 1430, 4862, 16796, 58786, 208012, 742900,
      2674440, 9694845, 35357670, 129644790, 477638700, 767263183, 564120378,
      466266852, 466266852] 22 1 =
     Inr [1, 1, 2, 5, 14, 42, 132, 429, 1430, 4862, 16796, 58786, 208012, 742900,
      2674440, 9694845, 35357670, 129644790, 477638700, 767263183, 564120378,
      466266852, 30387223] \<and>
   564120378 + 466266852 = (1030387230::int) \<and> ll_mod_MODULO 1030387230 = 30387223 \<and>
   occurs 22 (AtInner
     [1, 1, 2, 5, 14, 42, 132, 429, 1430, 4862, 16796, 58786, 208012, 742900,
      2674440, 9694845, 35357670, 129644790, 477638700, 767263183, 564120378,
      466266852, 30387223] 22 2) \<and>
   ll_mul 2 767263183 = Inr 1534526366 \<and> ll_mod_MODULO 1534526366 = 534526359 \<and>
   loop_body
     [1, 1, 2, 5, 14, 42, 132, 429, 1430, 4862, 16796, 58786, 208012, 742900,
      2674440, 9694845, 35357670, 129644790, 477638700, 767263183, 564120378,
      466266852, 30387223] 22 2 =
     Inr [1, 1, 2, 5, 14, 42, 132, 429, 1430, 4862, 16796, 58786, 208012, 742900,
      2674440, 9694845, 35357670, 129644790, 477638700, 767263183, 564120378,
      466266852, 564913582] \<and>
   table_ok
     [1, 1, 2, 5, 14, 42, 132, 429, 1430, 4862, 16796, 58786, 208012, 742900,
      2674440, 9694845, 35357670, 129644790, 477638700, 767263183, 564120378,
      466266852, 30387223] \<and>
   loop_body [1000000010, 1, - 5] 2 0 = Inr [1000000010, 1, - 2] \<and>
   computeCatalan 22 \<noteq> Inl LongLongOverflow"
proof -
  have h: "(0::int) \<le> 22" by simp
  from products_and_sums_in_range [OF h] have red: "\<forall>x. ll_mod_MODULO x = sgn x * (\<bar>x\<bar> mod 1000000007)"
    and mul: "\<forall>a b. in_range a \<and> in_range b \<longrightarrow> ll_mul a b = Inr (a * b)"
    and any: "\<forall>c idx k. 0 \<le> k \<and> k < idx \<and> idx < int (length c) \<and> idx \<le> INT_MAX \<longrightarrow>
            loop_body c idx k =
              (let a = c ! nat k; b = c ! nat (idx - k - 1); d = c ! nat idx;
                   p = sgn (a * b) * (\<bar>a * b\<bar> mod 1000000007); s = d + p
               in if LLONG_MIN \<le> a * b \<and> a * b \<le> LLONG_MAX \<and>
                     LLONG_MIN \<le> s \<and> s \<le> LLONG_MAX
                  then Inr (c[nat idx := sgn s * (\<bar>s\<bar> mod 1000000007)])
                  else Inl LongLongOverflow)"
    and ok: "\<forall>cfg. occurs 22 cfg \<longrightarrow> table_ok (table_of cfg)"
    and nov: "computeCatalan 22 \<noteq> Inl LongLongOverflow"
    by blast+
  note occ = occurs_example_22
  have r1: "ll_mod_MODULO 1030387230 = 30387223" "ll_mod_MODULO 1534526366 = 534526359"
    using red by simp_all
  have "in_range 2 \<and> in_range 767263183" by (simp add: in_range_def MODULO_def)
  with mul have m1: "ll_mul 2 767263183 = Inr (2 * 767263183)" by blast
  have b1: "loop_body
     [1, 1, 2, 5, 14, 42, 132, 429, 1430, 4862, 16796, 58786, 208012, 742900,
      2674440, 9694845, 35357670, 129644790, 477638700, 767263183, 564120378,
      466266852, 466266852] 22 1 =
     Inr [1, 1, 2, 5, 14, 42, 132, 429, 1430, 4862, 16796, 58786, 208012, 742900,
      2674440, 9694845, 35357670, 129644790, 477638700, 767263183, 564120378,
      466266852, 30387223]"
    using any [rule_format, of 1 22
     "[1, 1, 2, 5, 14, 42, 132, 429, 1430, 4862, 16796, 58786, 208012, 742900,
      2674440, 9694845, 35357670, 129644790, 477638700, 767263183, 564120378,
      466266852, 466266852]"]
    by (simp add: INT_MAX_def LLONG_MIN_def LLONG_MAX_def Let_def)
  have b2: "loop_body
     [1, 1, 2, 5, 14, 42, 132, 429, 1430, 4862, 16796, 58786, 208012, 742900,
      2674440, 9694845, 35357670, 129644790, 477638700, 767263183, 564120378,
      466266852, 30387223] 22 2 =
     Inr [1, 1, 2, 5, 14, 42, 132, 429, 1430, 4862, 16796, 58786, 208012, 742900,
      2674440, 9694845, 35357670, 129644790, 477638700, 767263183, 564120378,
      466266852, 564913582]"
    using any [rule_format, of 2 22
     "[1, 1, 2, 5, 14, 42, 132, 429, 1430, 4862, 16796, 58786, 208012, 742900,
      2674440, 9694845, 35357670, 129644790, 477638700, 767263183, 564120378,
      466266852, 30387223]"]
    by (simp add: INT_MAX_def LLONG_MIN_def LLONG_MAX_def Let_def)
  have b3: "loop_body [1000000010, 1, - 5] 2 0 = Inr [1000000010, 1, - 2]"
    using any [rule_format, of 0 2 "[1000000010, 1, - 5]"]
    by (simp add: INT_MAX_def LLONG_MIN_def LLONG_MAX_def Let_def)
  have t: "table_ok
     [1, 1, 2, 5, 14, 42, 132, 429, 1430, 4862, 16796, 58786, 208012, 742900,
      2674440, 9694845, 35357670, 129644790, 477638700, 767263183, 564120378,
      466266852, 30387223]"
    using ok occ by fastforce
  from h occ r1 m1 b1 b2 b3 t nov show ?thesis by simp
qed

text \<open>
  \<^bold>\<open>C4\<close>. The literal prefixes: \<open>computeCatalan\<close> at 0, 1, 2, 3 and 4 returns \<open>[1]\<close>,
  \<open>[1, 1]\<close>, \<open>[1, 1, 2]\<close>, \<open>[1, 1, 2, 5]\<close> and \<open>[1, 1, 2, 5, 14]\<close>.
\<close>

theorem computeCatalan_literal_prefixes:
  "computeCatalan 0 = Inr [1] \<and>
   computeCatalan 1 = Inr [1, 1] \<and>
   computeCatalan 2 = Inr [1, 1, 2] \<and>
   computeCatalan 3 = Inr [1, 1, 2, 5] \<and>
   computeCatalan 4 = Inr [1, 1, 2, 5, 14]"
  by code_simp

text \<open>
  \<^bold>\<open>C5\<close>. Prefix stability: for \<open>0 \<le> n \<le> m\<close>, whenever \<open>computeCatalan m\<close> returns a
  sequence, \<open>computeCatalan n\<close> returns that sequence cut to the indices \<open>0..n\<close>. (Below
  \<open>INT_MAX\<close> a sequence is returned for \<open>m\<close>.)
\<close>

theorem computeCatalan_prefix_stable:
  assumes "0 \<le> n" "n \<le> m"
  shows "(m < INT_MAX \<longrightarrow> (\<exists>ys. computeCatalan m = Inr ys)) \<and>
         (\<forall>ys. computeCatalan m = Inr ys \<longrightarrow>
            computeCatalan n = Inr (take (nat n + 1) ys))"
proof (intro conjI allI impI)
  assume "m < INT_MAX"
  with assms show "\<exists>ys. computeCatalan m = Inr ys"
    by (simp add: computeCatalan_table)
next
  fix ys
  assume r: "computeCatalan m = Inr ys"
  then have m: "m < INT_MAX" by (rule computeCatalan_Inr_limit)
  have "computeCatalan m = Inr (map spec_catalan [0..<nat m + 1])"
    using assms m by (intro computeCatalan_table) simp_all
  with r have ys: "ys = map spec_catalan [0..<nat m + 1]" by simp
  have "computeCatalan n = Inr (map spec_catalan [0..<nat n + 1])"
    using assms m by (intro computeCatalan_table) simp_all
  also have "map spec_catalan [0..<nat n + 1] = take (nat n + 1) ys"
    unfolding ys using assms by (intro take_table [symmetric]) simp
  finally show "computeCatalan n = Inr (take (nat n + 1) ys)" .
qed

theorem computeCatalan_prefix_stable_witness:
  "(0::int) \<le> 2 \<and> (2::int) \<le> 4 \<and> computeCatalan 4 = Inr [1, 1, 2, 5, 14] \<and>
   computeCatalan 2 = Inr (take 3 [1, 1, 2, 5, 14])"
proof -
  have r: "computeCatalan 4 = Inr [1, 1, 2, 5, 14]" by code_simp
  have "computeCatalan 2 = Inr (take (nat 2 + 1) [1, 1, 2, 5, 14])"
    using computeCatalan_prefix_stable [of 2 4] r by simp
  then show ?thesis using r by simp
qed


text \<open>
  \<^bold>\<open>C7\<close>, as amended. \<open>computeCatalan\<close> does not check its argument. At \<open>limit = - 1\<close>
  the table is empty and the store to element 0 is out of bounds (undefined
  behaviour); at a limit from \<open>INT_MIN\<close> to \<open>- 2\<close> the negative size, converted to the
  unsigned size type, exceeds the largest size of a vector, and the constructor throws
  \<open>std::length_error\<close>. For \<open>0 \<le> limit < INT_MAX\<close> the call fails in no way.
\<close>

theorem computeCatalan_negative_limit:
  "computeCatalan (- 1) = Inl OutOfBounds \<and>
   (INT_MIN \<le> limit \<and> limit < - 1 \<longrightarrow> computeCatalan limit = Inl LengthError) \<and>
   (0 \<le> limit \<and> limit < INT_MAX \<longrightarrow> (\<exists>result. computeCatalan limit = Inr result))"
  by (simp add: computeCatalan_minus_one computeCatalan_negative computeCatalan_table)

theorem computeCatalan_negative_limit_witness:
  "INT_MIN \<le> - 5 \<and> (- 5::int) < - 1 \<and> computeCatalan (- 5) = Inl LengthError \<and>
   computeCatalan (- 1) = Inl OutOfBounds \<and>
   (0::int) \<le> 3 \<and> 3 < INT_MAX \<and> (\<exists>result. computeCatalan 3 = Inr result)"
  using computeCatalan_negative_limit [of "- 5"] computeCatalan_negative_limit [of 3]
  by (simp add: INT_MIN_def INT_MAX_def)

text \<open>
  C7 as stated fails at \<open>limit = - 1\<close>: the call runs into undefined behaviour, not
  into a check of its argument.
\<close>

theorem computeCatalan_minus_one_counterexample:
  "computeCatalan (- 1) = Inl OutOfBounds \<and> undefined_behaviour OutOfBounds"
  by (simp add: computeCatalan_minus_one)

text \<open>
  \<^bold>\<open>C8\<close>. In the embedding with the program state, a call \<open>computeCatalan_st limit\<close>
  that returns leaves \<open>std::cout\<close> as it was and every block of the free store as it
  was; it adds one block, that of the vector it returns. The sequence in that block is
  the one \<open>computeCatalan limit\<close> returns, and it is the same from whatever state the
  call starts; a call that fails from one state fails in the same way from every other.
  Two calls with the limit 100, one after the other from any state, both return, and
  their sequences are identical.
\<close>

theorem computeCatalan_no_side_effects:
  "(\<forall>a w'. computeCatalan_st limit w = Inr (a, w') \<longrightarrow>
      cout w' = cout w \<and> a = length (heap w) \<and> heap w' = heap w @ [heap w' ! a] \<and>
      computeCatalan limit = Inr (heap w' ! a) \<and>
      (\<forall>v b v'. computeCatalan_st limit v = Inr (b, v') \<longrightarrow> heap v' ! b = heap w' ! a)) \<and>
   (\<forall>e. computeCatalan_st limit w = Inl e \<longrightarrow> computeCatalan_st limit v = Inl e) \<and>
   (\<exists>xs. computeCatalan 100 = Inr xs \<and>
      bind_st (computeCatalan_st 100) (\<lambda>first.
      bind_st (computeCatalan_st 100) (\<lambda>second u.
        Inr ((heap u ! first, heap u ! second), u))) w =
      Inr ((xs, xs), w\<lparr>heap := heap w @ [xs, xs]\<rparr>))"
proof (intro conjI allI impI)
  fix a w'
  assume r: "computeCatalan_st limit w = Inr (a, w')"
  then obtain xs where xs: "computeCatalan limit = Inr xs"
    and a: "a = length (heap w)" and w': "w' = w\<lparr>heap := heap w @ [xs]\<rparr>"
    by (cases "computeCatalan limit") (auto simp: computeCatalan_st_sim)
  show "cout w' = cout w" "a = length (heap w)" by (simp_all add: w' a)
  show "heap w' = heap w @ [heap w' ! a]" by (simp add: w' a)
  show "computeCatalan limit = Inr (heap w' ! a)" by (simp add: w' a xs)
  fix v b v'
  assume "computeCatalan_st limit v = Inr (b, v')"
  then have "b = length (heap v)" "v' = v\<lparr>heap := heap v @ [xs]\<rparr>"
    using xs by (auto simp: computeCatalan_st_sim)
  then show "heap v' ! b = heap w' ! a" by (simp add: w' a)
next
  fix e
  assume "computeCatalan_st limit w = Inl e"
  then have "computeCatalan limit = Inl e"
    by (cases "computeCatalan limit") (auto simp: computeCatalan_st_sim)
  then show "computeCatalan_st limit v = Inl e"
    by (simp add: computeCatalan_st_sim)
next
  have "computeCatalan 100 = Inr (map spec_catalan [0..<nat 100 + 1])"
    by (rule computeCatalan_table) (simp_all add: INT_MAX_def)
  then obtain xs where xs: "computeCatalan 100 = Inr xs" by blast
  have "bind_st (computeCatalan_st 100) (\<lambda>first.
      bind_st (computeCatalan_st 100) (\<lambda>second u.
        Inr ((heap u ! first, heap u ! second), u))) w =
      Inr ((xs, xs), w\<lparr>heap := heap w @ [xs, xs]\<rparr>)"
    by (simp add: bind_st_def computeCatalan_st_sim xs nth_append)
  with xs show "\<exists>xs. computeCatalan 100 = Inr xs \<and>
      bind_st (computeCatalan_st 100) (\<lambda>first.
      bind_st (computeCatalan_st 100) (\<lambda>second u.
        Inr ((heap u ! first, heap u ! second), u))) w =
      Inr ((xs, xs), w\<lparr>heap := heap w @ [xs, xs]\<rparr>)"
    by blast
qed

theorem computeCatalan_no_side_effects_witness:
  "computeCatalan_st 2 \<lparr>cout = ''x'', heap = [[7]]\<rparr> =
     Inr (1, \<lparr>cout = ''x'', heap = [[7], [1, 1, 2]]\<rparr>) \<and>
   computeCatalan_st 2 \<lparr>cout = [], heap = []\<rparr> =
     Inr (0, \<lparr>cout = [], heap = [[1, 1, 2]]\<rparr>) \<and>
   computeCatalan 2 = Inr [1, 1, 2] \<and>
   computeCatalan_st (- 1) \<lparr>cout = ''x'', heap = [[7]]\<rparr> = Inl OutOfBounds \<and>
   computeCatalan_st (- 1) \<lparr>cout = [], heap = []\<rparr> = Inl OutOfBounds"
proof -
  have r: "computeCatalan_st 2 \<lparr>cout = ''x'', heap = [[7]]\<rparr> =
             Inr (1, \<lparr>cout = ''x'', heap = [[7], [1, 1, 2]]\<rparr>)"
    by code_simp
  have r': "computeCatalan_st 2 \<lparr>cout = [], heap = []\<rparr> =
              Inr (0, \<lparr>cout = [], heap = [[1, 1, 2]]\<rparr>)"
    by code_simp
  have e: "computeCatalan_st (- 1) \<lparr>cout = ''x'', heap = [[7]]\<rparr> = Inl OutOfBounds"
    by code_simp
  from computeCatalan_no_side_effects [of 2 "\<lparr>cout = ''x'', heap = [[7]]\<rparr>"] r
  have "computeCatalan 2 = Inr (heap \<lparr>cout = ''x'', heap = [[7], [1, 1, 2]]\<rparr> ! 1)"
    by blast
  then have p: "computeCatalan 2 = Inr [1, 1, 2]" by simp
  from computeCatalan_no_side_effects
    [of "- 1" "\<lparr>cout = ''x'', heap = [[7]]\<rparr>" "\<lparr>cout = [], heap = []\<rparr>"] e
  have "computeCatalan_st (- 1) \<lparr>cout = [], heap = []\<rparr> = Inl OutOfBounds"
    by blast
  with r r' e p show ?thesis by (simp only: simp_thms)
qed

text \<open>
  \<^bold>\<open>C9\<close>, as amended. For every limit with \<open>0 \<le> limit < INT_MAX\<close> the call
  \<open>computeCatalan limit\<close> runs to completion and returns a table of \<open>limit + 1\<close>
  entries. Both loops terminate from every state: every argument is in the domain of
  the recursion of \<open>inner_loop\<close> and of \<open>outer_loop\<close>.
\<close>

theorem computeCatalan_terminates:
  assumes "0 \<le> limit" "limit < INT_MAX"
  shows "(\<exists>result. computeCatalan limit = Inr result \<and> length result = nat limit + 1) \<and>
         inner_loop_dom (catalan, idx, k) \<and> outer_loop_dom (catalan', limit', idx')"
proof -
  have "inner_loop_dom (catalan, idx, k)" by (rule inner_loop_total)
  moreover have "outer_loop_dom (catalan', limit', idx')" by (rule outer_loop_total)
  moreover have "length (map spec_catalan [0..<nat limit + 1]) = nat limit + 1"
    by simp
  ultimately show ?thesis
    using computeCatalan_table [OF assms] by (metis (full_types))
qed

theorem computeCatalan_terminates_witness:
  "(0::int) \<le> 100 \<and> 100 < INT_MAX \<and>
   (\<exists>result. computeCatalan 100 = Inr result \<and> length result = 101)"
proof -
  have h: "(0::int) \<le> 100" "100 < INT_MAX" by (simp_all add: INT_MAX_def)
  from computeCatalan_terminates [OF h] show ?thesis using h by simp
qed

text \<open>
  C9 as stated, for every non-negative limit, fails at \<open>INT_MAX\<close>: the call runs into
  undefined behaviour (the overflow of \<open>limit + 1\<close>) and does not run to completion.
\<close>

theorem computeCatalan_INT_MAX_counterexample:
  "INT_MAX = 2147483647 \<and> computeCatalan INT_MAX = Inl IntOverflow \<and>
   undefined_behaviour IntOverflow"
  by (simp add: computeCatalan_def int_add_def INT_MAX_def INT_MIN_def)

text \<open>
  \<^bold>\<open>C10\<close>. For every limit \<open>\<ge> 0\<close> no access to the table is out of bounds: the call
  never ends in \<open>OutOfBounds\<close>; the table that is created has \<open>limit + 1\<close> elements and
  the store to element 0 is within it; and wherever the body of the inner loop is
  about to run, the table has \<open>limit + 1\<close> elements, \<open>idx\<close> is in \<open>[1, limit]\<close>, \<open>k\<close> and
  \<open>idx - k - 1\<close> are in \<open>[0, idx - 1]\<close>, and the three reads and the store succeed.
\<close>

theorem computeCatalan_accesses_in_bounds:
  assumes "0 \<le> limit"
  shows "computeCatalan limit \<noteq> Inl OutOfBounds \<and>
         (\<forall>n c0. int_add limit 1 = Inr n \<and> vector_create n 0 = Inr c0 \<longrightarrow>
            length c0 = nat limit + 1 \<and> vector_set c0 0 1 = Inr (c0[0 := 1])) \<and>
         (\<forall>c idx k. occurs limit (AtInner c idx k) \<and> k < idx \<longrightarrow>
            length c = nat limit + 1 \<and> 1 \<le> idx \<and> idx \<le> limit \<and>
            0 \<le> k \<and> k \<le> idx - 1 \<and> 0 \<le> idx - k - 1 \<and> idx - k - 1 \<le> idx - 1 \<and>
            vector_at c idx = Inr (c ! nat idx) \<and>
            vector_at c k = Inr (c ! nat k) \<and>
            vector_at c (idx - k - 1) = Inr (c ! nat (idx - k - 1)) \<and>
            (\<forall>v. vector_set c idx v = Inr (c[nat idx := v])))"
proof (intro conjI allI impI)
  show "computeCatalan limit \<noteq> Inl OutOfBounds"
  proof (cases "limit < INT_MAX")
    case True
    with assms show ?thesis by (simp add: computeCatalan_table)
  next
    case False
    then have "int_add limit 1 = Inl IntOverflow" by (simp add: int_add_def)
    then show ?thesis by (simp add: computeCatalan_def)
  qed
next
  fix n c0
  assume a: "int_add limit 1 = Inr n \<and> vector_create n 0 = Inr c0"
  then have n: "n = limit + 1" "n \<le> INT_MAX"
    by (auto simp: int_add_def split: if_splits)
  then have "to_size_t n = n" using assms by (simp add: to_size_t_id)
  then have c0: "c0 = replicate (nat n) 0"
    using a by (simp add: vector_create_def split: if_splits)
  then show "length c0 = nat limit + 1" using n(1) assms by simp
  then show "vector_set c0 0 1 = Inr (c0[0 := 1])"
    by (simp add: vector_set_def to_size_t_def)
next
  fix c idx k
  assume "occurs limit (AtInner c idx k) \<and> k < idx"
  then have occ: "occurs limit (AtInner c idx k)" and k: "k < idx" by simp_all
  note inv = occurs_inner_accesses [OF occ k]
  show "length c = nat limit + 1" "1 \<le> idx" "idx \<le> limit" "0 \<le> k"
    "vector_at c idx = Inr (c ! nat idx)" "vector_at c k = Inr (c ! nat k)"
    "vector_at c (idx - k - 1) = Inr (c ! nat (idx - k - 1))"
    by (rule inv)+
  show "vector_set c idx v = Inr (c[nat idx := v])" for v by (rule inv)
  show "k \<le> idx - 1" "0 \<le> idx - k - 1" "idx - k - 1 \<le> idx - 1"
    using k inv(4) by simp_all
qed

theorem computeCatalan_accesses_in_bounds_witness:
  "(0::int) \<le> 1 \<and> computeCatalan 1 \<noteq> Inl OutOfBounds \<and> occurs 1 (AtInner [1, 0] 1 0) \<and>
   vector_at [1, 0] 1 = Inr 0 \<and> vector_at [1, 0] 0 = Inr 1 \<and>
   vector_set [1, 0] 1 1 = Inr [1, 1]"
proof -
  have h: "(0::int) \<le> 1" by simp
  have "computeCatalan 1 \<noteq> Inl OutOfBounds \<and>
        (\<forall>c idx k. occurs 1 (AtInner c idx k) \<and> k < idx \<longrightarrow>
            vector_at c idx = Inr (c ! nat idx) \<and> vector_at c k = Inr (c ! nat k) \<and>
            (\<forall>v. vector_set c idx v = Inr (c[nat idx := v])))"
    using computeCatalan_accesses_in_bounds [OF h] by blast
  moreover have "occurs 1 (AtInner [1, 0] 1 0) \<and> (0::int) < 1"
    using occurs_example by simp
  ultimately have "computeCatalan 1 \<noteq> Inl OutOfBounds \<and>
      vector_at [1, 0] 1 = Inr ([1, 0] ! nat 1) \<and>
      vector_at [1, 0] 0 = Inr ([1, 0] ! nat 0) \<and>
      vector_set [1, 0] 1 1 = Inr ([1, 0][nat 1 := 1])"
    by blast
  then show ?thesis using occurs_example by simp
qed

end
